theory Spec2Isabelle
  imports Main "HOL-Library.AList"
begin

section \<open>The client side of salve\_ipc: data model\<close>

text \<open>
  The class \<open>IPC\<close> of \<open>src/salve_ipc/ipc.py\<close> talks to a worker process through two
  queues. Its methods mutate the object in place, raise exceptions, and one of them
  loops on random draws; the model makes all three explicit.
\<close>

text \<open>
  The exceptions the methods can raise. The source raises a plain \<open>Exception\<close> with a
  message for a command outside \<open>COMMANDS\<close> and for a file outside \<open>self.files\<close>; the
  two are kept apart here by constructor. \<open>ValueError\<close> is what \<open>list.remove\<close> and
  \<open>randint\<close> on an empty range raise, \<open>KeyError\<close> what a dictionary lookup of a missing
  key raises.
\<close>

datatype error =
    InvalidCommand string
  | UnknownFile string
  | ValueError
  | KeyError string

text \<open>
  A response of the worker: a dictionary with the key \<open>id\<close>, possibly the key \<open>command\<close>,
  and a payload that the client never inspects.
\<close>

record response =
  res_id :: int
  res_command :: "string option"
  res_result :: string

text \<open>The three shapes of message that \<open>create_message\<close> builds.\<close>

datatype message =
    Ping int
  | Request int string string "string list" string string "int \<times> int"
  | Notification int bool string string

fun message_id :: "message \<Rightarrow> int" where
  "message_id (Ping i) = i"
| "message_id (Request i c f ks w l r) = i"
| "message_id (Notification i rm f c) = i"

text \<open>
  The keyword arguments of \<open>create_message\<close>: every key may be absent, and
  \<open>kwargs.get(key, default)\<close> reads it.
\<close>

record kwargs =
  kw_command :: "string option"
  kw_file :: "string option"
  kw_expected_keywords :: "string list option"
  kw_current_word :: "string option"
  kw_language :: "string option"
  kw_text_range :: "(int \<times> int) option"
  kw_remove :: "bool option"
  kw_filename :: "string option"
  kw_contents :: "string option"

definition no_kwargs :: kwargs where
  "no_kwargs = \<lparr>kw_command = None, kw_file = None, kw_expected_keywords = None,
     kw_current_word = None, kw_language = None, kw_text_range = None,
     kw_remove = None, kw_filename = None, kw_contents = None\<rparr>"

fun kwargs_get :: "'a option \<Rightarrow> 'a \<Rightarrow> 'a" where
  "kwargs_get None d = d"
| "kwargs_get (Some v) d = v"

text \<open>
  Modelled from the spec: the constant \<open>COMMANDS\<close> is imported from \<open>salve_ipc/misc.py\<close>,
  which is not among the sources. The class docstring and the spec name its three elements.
\<close>

definition COMMANDS :: "string list" where
  "COMMANDS = [''autocomplete'', ''replacements'', ''highlight'']"

text \<open>
  The fields of an \<open>IPC\<close> object. \<open>files\<close> is a Python dictionary, whose iteration order
  is the insertion order, so it is an association list. The two queues are lists, oldest
  element first. Of the worker process only two things are observed: whether it is alive
  (\<open>main_server.is_alive()\<close>) and how many processes were started. \<open>entropy\<close> is the
  random source: the raw values that the coming calls of \<open>randint\<close> will consume.
\<close>

record ipc =
  all_ids :: "int list"
  id_max :: int
  current_ids :: "string \<rightharpoonup> int"
  newest_responses :: "string \<rightharpoonup> response option"
  files :: "(string \<times> string) list"
  response_queue :: "response list"
  requests_queue :: "message list"
  server_alive :: bool
  servers_started :: nat
  entropy :: "nat \<Rightarrow> nat"

text \<open>
  What a call does: it returns a value, or raises, in both cases leaving the object in
  some state (the mutations made before a \<open>raise\<close> stay), or it never returns.
\<close>

datatype 'a outcome =
    Returns 'a ipc
  | Raises error ipc
  | Diverges

fun final_state :: "'a outcome \<Rightarrow> ipc option" where
  "final_state (Returns v s) = Some s"
| "final_state (Raises e s) = Some s"
| "final_state Diverges = None"

section \<open>The methods\<close>

text \<open>
  \<open>randint(a, b)\<close> returns some integer of the closed interval from \<open>a\<close> to \<open>b\<close>. It is
  modelled by reducing a raw value into the interval: every element of the interval is
  the image of some raw value, and nothing else is.
\<close>

definition randint :: "int \<Rightarrow> int \<Rightarrow> nat \<Rightarrow> int" where
  "randint a b r = a + int r mod (b - a + 1)"

text \<open>
  The loop \<open>while id in self.all_ids: id = randint(1, self.id_max)\<close>. It returns the
  accepted identifier and the unused rest of the random source, and has no value when
  every draw is rejected.
\<close>

partial_function (option) redraw ::
  "int list \<Rightarrow> int \<Rightarrow> (nat \<Rightarrow> nat) \<Rightarrow> int \<Rightarrow> (int \<times> (nat \<Rightarrow> nat)) option" where
  "redraw ids hi e i =
     (if i \<in> set ids then redraw ids hi (\<lambda>n. e (Suc n)) (randint 1 hi (e 0))
      else Some (i, e))"

definition send_message :: "message \<Rightarrow> ipc \<Rightarrow> ipc" where
  "send_message m s = s\<lparr>requests_queue := requests_queue s @ [m]\<rparr>"

definition create_message :: "string \<Rightarrow> kwargs \<Rightarrow> ipc \<Rightarrow> unit outcome" where
  "create_message type kw s =
     (if id_max s < 1 then Raises ValueError s
      else
        case redraw (all_ids s) (id_max s) (\<lambda>n. entropy s (Suc n))
               (randint 1 (id_max s) (entropy s 0)) of
          None \<Rightarrow> Diverges
        | Some (i, e) \<Rightarrow>
            let s1 = s\<lparr>all_ids := all_ids s @ [i], entropy := e\<rparr> in
            if type = ''ping'' then Returns () (send_message (Ping i) s1)
            else if type = ''request'' then
              let command = kwargs_get (kw_command kw) [];
                  s2 = s1\<lparr>current_ids := (current_ids s1)(command \<mapsto> i)\<rparr>
              in Returns () (send_message
                   (Request i command
                      (kwargs_get (kw_file kw) [])
                      (kwargs_get (kw_expected_keywords kw) [])
                      (kwargs_get (kw_current_word kw) [])
                      (kwargs_get (kw_language kw) [])
                      (kwargs_get (kw_text_range kw) (1, -1))) s2)
            else if type = ''notification'' then
              Returns () (send_message
                (Notification i
                   (kwargs_get (kw_remove kw) False)
                   (kwargs_get (kw_filename kw) [])
                   (kwargs_get (kw_contents kw) [])) s1)
            else Returns () (send_message (Ping i) s1))"

text \<open>\<open>main_server.kill()\<close>: afterwards the process is not alive.\<close>

definition killed :: "ipc \<Rightarrow> ipc" where
  "killed s = s\<lparr>server_alive := False\<rparr>"

definition kill_IPC :: "ipc \<Rightarrow> unit outcome" where
  "kill_IPC s = Returns () (killed s)"

definition ping :: "ipc \<Rightarrow> unit outcome" where
  "ping s = create_message ''ping'' no_kwargs s"

definition update_file :: "string \<Rightarrow> string \<Rightarrow> ipc \<Rightarrow> unit outcome" where
  "update_file filename current_state s =
     create_message ''notification''
       (no_kwargs\<lparr>kw_filename := Some filename, kw_contents := Some current_state\<rparr>)
       (s\<lparr>files := AList.update filename current_state (files s)\<rparr>)"

text \<open>The loop of \<open>create_server\<close> over the copy of the file dictionary.\<close>

fun replay :: "(string \<times> string) list \<Rightarrow> ipc \<Rightarrow> unit outcome" where
  "replay [] s = Returns () s"
| "replay ((filename, data) # rest) s =
     (case update_file filename data s of
        Returns u s' \<Rightarrow> replay rest s'
      | Raises e s' \<Rightarrow> Raises e s'
      | Diverges \<Rightarrow> Diverges)"

definition create_server :: "ipc \<Rightarrow> unit outcome" where
  "create_server s =
     (let s1 = s\<lparr>server_alive := True, servers_started := Suc (servers_started s)\<rparr>;
          files_copy = files s1
      in replay files_copy (s1\<lparr>files := []\<rparr>))"

definition check_server :: "ipc \<Rightarrow> unit outcome" where
  "check_server s = (if \<not> server_alive s then create_server s else Returns () s)"

text \<open>\<open>IPC(id_max)\<close>: the constructor, given the random source the object will draw from.\<close>

definition IPC :: "int \<Rightarrow> (nat \<Rightarrow> nat) \<Rightarrow> unit outcome" where
  "IPC idmax e =
     create_server
       \<lparr>all_ids = [], id_max = idmax,
        current_ids = map_of (map (\<lambda>c. (c, 0)) COMMANDS),
        newest_responses = map_of (map (\<lambda>c. (c, None)) COMMANDS),
        files = [], response_queue = [], requests_queue = [],
        server_alive = False, servers_started = 0, entropy = e\<rparr>"

definition request ::
  "string \<Rightarrow> string \<Rightarrow> string list \<Rightarrow> string \<Rightarrow> string \<Rightarrow> int \<times> int \<Rightarrow> ipc \<Rightarrow> unit outcome" where
  "request command file expected_keywords current_word language text_range s =
     (if command \<notin> set COMMANDS then Raises (InvalidCommand command) (killed s)
      else if file \<notin> set (map fst (files s)) then Raises (UnknownFile file) (killed s)
      else create_message ''request''
             (no_kwargs\<lparr>kw_command := Some command, kw_file := Some file,
                kw_expected_keywords := Some expected_keywords,
                kw_current_word := Some current_word,
                kw_language := Some language,
                kw_text_range := Some text_range\<rparr>) s)"

definition cancel_request :: "string \<Rightarrow> ipc \<Rightarrow> unit outcome" where
  "cancel_request command s =
     (if command \<notin> set COMMANDS then Raises (InvalidCommand command) (killed s)
      else Returns () (s\<lparr>current_ids := (current_ids s)(command \<mapsto> 0)\<rparr>))"

definition parse_response :: "response \<Rightarrow> ipc \<Rightarrow> unit outcome" where
  "parse_response res s =
     (let i = res_id res in
      if i \<notin> set (all_ids s) then Raises ValueError s
      else
        let s1 = s\<lparr>all_ids := remove1 i (all_ids s)\<rparr> in
        case res_command res of
          None \<Rightarrow> Returns () s1
        | Some command \<Rightarrow>
            (case current_ids s1 command of
               None \<Rightarrow> Raises (KeyError command) s1
             | Some cur \<Rightarrow>
                 if i \<noteq> cur then Returns () s1
                 else Returns ()
                        (s1\<lparr>current_ids := (current_ids s1)(command \<mapsto> 0),
                            newest_responses := (newest_responses s1)(command \<mapsto> Some res)\<rparr>)))"

text \<open>
  \<open>check_responses\<close> empties the inbound queue, one \<open>get\<close> and one \<open>parse_response\<close> at a
  time. The queue is the one held in the state when the call starts: what the worker
  adds afterwards is seen by the next call.
\<close>

fun drain :: "response list \<Rightarrow> ipc \<Rightarrow> unit outcome" where
  "drain [] s = Returns () (s\<lparr>response_queue := []\<rparr>)"
| "drain (res # rest) s =
     (case parse_response res (s\<lparr>response_queue := rest\<rparr>) of
        Returns u s' \<Rightarrow> drain rest s'
      | Raises e s' \<Rightarrow> Raises e s'
      | Diverges \<Rightarrow> Diverges)"

definition check_responses :: "ipc \<Rightarrow> unit outcome" where
  "check_responses s = drain (response_queue s) s"

definition get_response :: "string \<Rightarrow> ipc \<Rightarrow> response option outcome" where
  "get_response command s =
     (if command \<notin> set COMMANDS then Raises (InvalidCommand command) (killed s)
      else
        case check_responses s of
          Raises e s' \<Rightarrow> Raises e s'
        | Diverges \<Rightarrow> Diverges
        | Returns u s1 \<Rightarrow>
            (case newest_responses s1 command of
               None \<Rightarrow> Raises (KeyError command) s1
             | Some resp \<Rightarrow>
                 Returns resp (s1\<lparr>newest_responses := (newest_responses s1)(command \<mapsto> None)\<rparr>)))"

definition remove_file :: "string \<Rightarrow> ipc \<Rightarrow> unit outcome" where
  "remove_file filename s =
     (if filename \<notin> set (map fst (files s)) then Raises (UnknownFile filename) (killed s)
      else create_message ''notification''
             (no_kwargs\<lparr>kw_remove := Some True, kw_filename := Some filename\<rparr>) s)"

section \<open>Histories of an object\<close>

text \<open>
  What can happen to an \<open>IPC\<close> object: the caller invokes a method, the worker puts a
  response on the inbound queue, or the worker process exits.
\<close>

datatype event =
    DoPing
  | DoRequest string string "string list" string string "int \<times> int"
  | DoCancel string
  | DoGet string
  | DoUpdate string string
  | DoRemove string
  | DoKill
  | DoCheckServer
  | WorkerPuts response
  | WorkerExits

fun perform :: "event \<Rightarrow> ipc \<Rightarrow> ipc option" where
  "perform DoPing s = final_state (ping s)"
| "perform (DoRequest c f ks w l r) s = final_state (request c f ks w l r s)"
| "perform (DoCancel c) s = final_state (cancel_request c s)"
| "perform (DoGet c) s = final_state (get_response c s)"
| "perform (DoUpdate f d) s = final_state (update_file f d s)"
| "perform (DoRemove f) s = final_state (remove_file f s)"
| "perform DoKill s = final_state (kill_IPC s)"
| "perform DoCheckServer s = final_state (check_server s)"
| "perform (WorkerPuts res) s = Some (s\<lparr>response_queue := response_queue s @ [res]\<rparr>)"
| "perform WorkerExits s = Some (killed s)"

fun run :: "event list \<Rightarrow> ipc \<Rightarrow> ipc option" where
  "run [] s = Some s"
| "run (ev # evs) s = (case perform ev s of None \<Rightarrow> None | Some s' \<Rightarrow> run evs s')"

inductive reachable :: "ipc \<Rightarrow> bool" where
  init: "IPC idmax e = Returns () s \<Longrightarrow> reachable s"
| step: "reachable s \<Longrightarrow> perform ev s = Some s' \<Longrightarrow> reachable s'"

text \<open>The object that the constructor builds.\<close>

definition new_ipc :: "int \<Rightarrow> (nat \<Rightarrow> nat) \<Rightarrow> ipc" where
  "new_ipc idmax e =
     \<lparr>all_ids = [], id_max = idmax,
      current_ids = map_of (map (\<lambda>c. (c, 0)) COMMANDS),
      newest_responses = map_of (map (\<lambda>c. (c, None)) COMMANDS),
      files = [], response_queue = [], requests_queue = [],
      server_alive = True, servers_started = 1, entropy = e\<rparr>"

text \<open>
  Two properties of a state that every history keeps: the outstanding identifiers are
  pairwise distinct and lie between 1 and \<open>id_max\<close>, and the two per-command tables
  have exactly the commands as keys.
\<close>

definition ids_ok :: "ipc \<Rightarrow> bool" where
  "ids_ok s \<longleftrightarrow> distinct (all_ids s) \<and> (\<forall>i \<in> set (all_ids s). 1 \<le> i \<and> i \<le> id_max s)"

definition tables_ok :: "ipc \<Rightarrow> bool" where
  "tables_ok s \<longleftrightarrow>
     dom (current_ids s) = set COMMANDS \<and> dom (newest_responses s) = set COMMANDS"

text \<open>Several calls of \<open>create_message\<close> in a row, each with its own arguments.\<close>

fun create_messages :: "(string \<times> kwargs) list \<Rightarrow> ipc \<Rightarrow> unit outcome" where
  "create_messages [] s = Returns () s"
| "create_messages ((type, kw) # rest) s =
     (case create_message type kw s of
        Returns u s' \<Rightarrow> create_messages rest s'
      | Raises e s' \<Rightarrow> Raises e s'
      | Diverges \<Rightarrow> Diverges)"

text \<open>An event is a request for the command \<open>c\<close>.\<close>

fun requests_command :: "string \<Rightarrow> event \<Rightarrow> bool" where
  "requests_command c (DoRequest c' f ks w l r) = (c' = c)"
| "requests_command c ev = False"

text \<open>An event by which the worker puts a response with the identifier \<open>i\<close>.\<close>

fun answers_id :: "int \<Rightarrow> event \<Rightarrow> bool" where
  "answers_id i (WorkerPuts res) = (res_id res = i)"
| "answers_id i ev = False"

text \<open>
  The identifier \<open>i\<close> is outstanding and no response on the inbound queue bears it.
\<close>

definition unanswered :: "int \<Rightarrow> ipc \<Rightarrow> bool" where
  "unanswered i s \<longleftrightarrow> i \<in> set (all_ids s) \<and> i \<notin> res_id ` set (response_queue s)"

text \<open>No request for the command \<open>c\<close> is live: its entry in \<open>current_ids\<close> is 0.\<close>

definition no_live_request :: "string \<Rightarrow> ipc \<Rightarrow> bool" where
  "no_live_request c s \<longleftrightarrow> current_ids s c = Some 0"

section \<open>The constructor\<close>

lemma IPC_returns: "IPC idmax e = Returns () (new_ipc idmax e)"
  by (simp add: IPC_def create_server_def new_ipc_def)

section \<open>Observing a response\<close>

text \<open>
  C1: \<open>parse_response\<close> processes a response to the end exactly when its identifier is
  outstanding and its command tag, if it has one, is a key of \<open>current_ids\<close>. For every
  response that it processes, the identifier is removed from \<open>all_ids\<close> (and is absent
  afterwards, the identifiers being distinct); without a command tag nothing else
  changes; with a command tag whose live identifier is the response's, the response is
  stored in \<open>newest_responses\<close> for the command and the live identifier becomes 0; in
  every other case nothing else changes.
\<close>

theorem parse_response_observes:
  "((\<exists>u s'. parse_response res s = Returns u s')
      \<longleftrightarrow> res_id res \<in> set (all_ids s)
        \<and> (case res_command res of None \<Rightarrow> True | Some c \<Rightarrow> c \<in> dom (current_ids s)))
   \<and> (\<forall>u s'. parse_response res s = Returns u s'
      \<longrightarrow> all_ids s' = remove1 (res_id res) (all_ids s)
        \<and> (distinct (all_ids s) \<longrightarrow> res_id res \<notin> set (all_ids s'))
        \<and> (case res_command res of
             None \<Rightarrow> s' = s\<lparr>all_ids := all_ids s'\<rparr>
           | Some c \<Rightarrow>
               if current_ids s c = Some (res_id res)
               then s' = s\<lparr>all_ids := all_ids s',
                           current_ids := (current_ids s)(c \<mapsto> 0),
                           newest_responses := (newest_responses s)(c \<mapsto> Some res)\<rparr>
               else s' = s\<lparr>all_ids := all_ids s'\<rparr>))"
proof (intro conjI allI impI)
  show "(\<exists>u s'. parse_response res s = Returns u s')
      \<longleftrightarrow> res_id res \<in> set (all_ids s)
        \<and> (case res_command res of None \<Rightarrow> True | Some c \<Rightarrow> c \<in> dom (current_ids s))"
    by (auto simp: parse_response_def Let_def split: option.splits)
next
  fix u s'
  assume "parse_response res s = Returns u s'"
  then show "all_ids s' = remove1 (res_id res) (all_ids s)"
    by (auto simp: parse_response_def Let_def split: option.splits if_splits)
next
  fix u s'
  assume "parse_response res s = Returns u s'" "distinct (all_ids s)"
  then show "res_id res \<notin> set (all_ids s')"
    by (auto simp: parse_response_def Let_def split: option.splits if_splits)
next
  fix u s'
  assume "parse_response res s = Returns u s'"
  then show "case res_command res of
             None \<Rightarrow> s' = s\<lparr>all_ids := all_ids s'\<rparr>
           | Some c \<Rightarrow>
               if current_ids s c = Some (res_id res)
               then s' = s\<lparr>all_ids := all_ids s',
                           current_ids := (current_ids s)(c \<mapsto> 0),
                           newest_responses := (newest_responses s)(c \<mapsto> Some res)\<rparr>
               else s' = s\<lparr>all_ids := all_ids s'\<rparr>"
    by (auto simp: parse_response_def Let_def split: option.splits if_splits)
qed

theorem parse_response_observes_witness:
  "res_id \<lparr>res_id = 7, res_command = Some ''highlight'', res_result = ''x''\<rparr>
     \<in> set (all_ids ((new_ipc 15000 (\<lambda>n. n))\<lparr>all_ids := [3, 7],
           current_ids := (current_ids (new_ipc 15000 (\<lambda>n. n)))(''highlight'' \<mapsto> 7)\<rparr>))
   \<and> (\<exists>s'. parse_response \<lparr>res_id = 7, res_command = Some ''highlight'', res_result = ''x''\<rparr>
        ((new_ipc 15000 (\<lambda>n. n))\<lparr>all_ids := [3, 7],
           current_ids := (current_ids (new_ipc 15000 (\<lambda>n. n)))(''highlight'' \<mapsto> 7)\<rparr>)
      = Returns () s' \<and> all_ids s' = [3] \<and> current_ids s' ''highlight'' = Some 0
      \<and> newest_responses s' ''highlight''
          = Some (Some \<lparr>res_id = 7, res_command = Some ''highlight'', res_result = ''x''\<rparr>))"
proof -
  let ?res = "\<lparr>res_id = 7, res_command = Some ''highlight'', res_result = ''x''\<rparr>"
  let ?s = "(new_ipc 15000 (\<lambda>n. n))\<lparr>all_ids := [3, 7],
           current_ids := (current_ids (new_ipc 15000 (\<lambda>n. n)))(''highlight'' \<mapsto> 7)\<rparr>"
  have pre: "res_id ?res \<in> set (all_ids ?s)
      \<and> (case res_command ?res of None \<Rightarrow> True | Some c \<Rightarrow> c \<in> dom (current_ids ?s))"
    by (simp add: new_ipc_def)
  with parse_response_observes [of ?res ?s, THEN conjunct1] obtain s' where
    ret: "parse_response ?res ?s = Returns () s'" by auto
  from parse_response_observes [of ?res ?s, THEN conjunct2, rule_format, OF ret]
  have "all_ids s' = [3] \<and> current_ids s' ''highlight'' = Some 0
      \<and> newest_responses s' ''highlight'' = Some (Some ?res)"
    by (auto simp: new_ipc_def)
  with pre ret show ?thesis by blast
qed

section \<open>The random draw and the allocation loop\<close>

lemma randint_range: "1 \<le> hi \<Longrightarrow> 1 \<le> randint 1 hi r \<and> randint 1 hi r \<le> hi"
proof -
  assume h: "1 \<le> hi"
  then have "0 \<le> int r mod hi" "int r mod hi < hi"
    by simp_all
  then show ?thesis by (simp add: randint_def)
qed

lemma randint_onto: "1 \<le> j \<Longrightarrow> j \<le> hi \<Longrightarrow> randint 1 hi (nat (j - 1)) = j"
  by (simp add: randint_def)

lemma redraw_accepts:
  "randint 1 hi (e n) \<notin> set ids \<Longrightarrow> \<exists>r. redraw ids hi e i = Some r"
proof (induction n arbitrary: e i)
  case 0
  show ?case
  proof (cases "i \<in> set ids")
    case True
    then have "redraw ids hi e i = redraw ids hi (\<lambda>n. e (Suc n)) (randint 1 hi (e 0))"
      by (subst redraw.simps) simp
    also have "\<dots> = Some (randint 1 hi (e 0), \<lambda>n. e (Suc n))"
      using 0 by (subst redraw.simps) simp
    finally show ?thesis by blast
  next
    case False
    then show ?thesis by (subst redraw.simps) simp
  qed
next
  case (Suc n)
  show ?case
  proof (cases "i \<in> set ids")
    case True
    then have "redraw ids hi e i = redraw ids hi (\<lambda>n. e (Suc n)) (randint 1 hi (e 0))"
      by (subst redraw.simps) simp
    moreover have "\<exists>r. redraw ids hi (\<lambda>n. e (Suc n)) (randint 1 hi (e 0)) = Some r"
      using Suc.IH [of "\<lambda>n. e (Suc n)"] Suc.prems by simp
    ultimately show ?thesis by simp
  next
    case False
    then show ?thesis by (subst redraw.simps) simp
  qed
qed

lemma redraw_fresh:
  assumes "redraw ids hi e i = Some r"
  shows "fst r \<notin> set ids"
proof (rule redraw.raw_induct [where P = "\<lambda>ids hi e i r. fst r \<notin> set ids", OF _ assms])
  fix f ids hi e i r
  assume "\<And>ids hi e i r. f ids hi e i = Some r \<Longrightarrow> fst r \<notin> set ids"
    and "(if i \<in> set ids then f ids hi (\<lambda>n. e (Suc n)) (randint 1 hi (e 0)) else Some (i, e)) = Some r"
  then show "fst r \<notin> set ids"
    by (cases "i \<in> set ids") auto
qed

lemma redraw_range:
  assumes "redraw ids hi e i = Some r"
  shows "1 \<le> hi \<longrightarrow> 1 \<le> i \<and> i \<le> hi \<longrightarrow> 1 \<le> fst r \<and> fst r \<le> hi"
proof (rule redraw.raw_induct
    [where P = "\<lambda>ids hi e i r. 1 \<le> hi \<longrightarrow> 1 \<le> i \<and> i \<le> hi \<longrightarrow> 1 \<le> fst r \<and> fst r \<le> hi",
      OF _ assms])
  fix f ids hi e i r
  assume IH: "\<And>ids hi e i r. f ids hi e i = Some r \<Longrightarrow>
      1 \<le> hi \<longrightarrow> 1 \<le> i \<and> i \<le> hi \<longrightarrow> 1 \<le> fst r \<and> fst r \<le> hi"
    and eq: "(if i \<in> set ids then f ids hi (\<lambda>n. e (Suc n)) (randint 1 hi (e 0)) else Some (i, e)) = Some r"
  show "1 \<le> hi \<longrightarrow> 1 \<le> i \<and> i \<le> hi \<longrightarrow> 1 \<le> fst r \<and> fst r \<le> hi"
  proof (cases "i \<in> set ids")
    case True
    with eq have "f ids hi (\<lambda>n. e (Suc n)) (randint 1 hi (e 0)) = Some r" by simp
    from IH [OF this] show ?thesis using randint_range [of hi "e 0"] by blast
  next
    case False
    with eq show ?thesis by auto
  qed
qed

lemma redraw_some_draw_free:
  assumes "redraw ids hi e i = Some r"
  shows "i \<in> set ids \<longrightarrow> (\<exists>n. randint 1 hi (e n) \<notin> set ids)"
proof (rule redraw.raw_induct
    [where P = "\<lambda>ids hi e i r. i \<in> set ids \<longrightarrow> (\<exists>n. randint 1 hi (e n) \<notin> set ids)", OF _ assms])
  fix f ids hi e i r
  assume IH: "\<And>ids hi e i r. f ids hi e i = Some r \<Longrightarrow>
      i \<in> set ids \<longrightarrow> (\<exists>n. randint 1 hi (e n) \<notin> set ids)"
    and eq: "(if i \<in> set ids then f ids hi (\<lambda>n. e (Suc n)) (randint 1 hi (e 0)) else Some (i, e)) = Some r"
  show "i \<in> set ids \<longrightarrow> (\<exists>n. randint 1 hi (e n) \<notin> set ids)"
  proof
    assume mem: "i \<in> set ids"
    with eq have call: "f ids hi (\<lambda>n. e (Suc n)) (randint 1 hi (e 0)) = Some r" by simp
    show "\<exists>n. randint 1 hi (e n) \<notin> set ids"
    proof (cases "randint 1 hi (e 0) \<in> set ids")
      case True
      with IH [OF call] obtain n where "randint 1 hi (e (Suc n)) \<notin> set ids" by blast
      then show ?thesis by blast
    next
      case False
      then show ?thesis by blast
    qed
  qed
qed

lemma redraw_exhausted:
  "\<forall>n. randint 1 hi (e n) \<in> set ids \<Longrightarrow> i \<in> set ids \<Longrightarrow> redraw ids hi e i = None"
  using redraw_some_draw_free [of ids hi e i] by (cases "redraw ids hi e i") auto

lemma redraw_mono:
  assumes "redraw ids' hi e i = Some r'"
  shows "\<forall>ids. set ids \<subseteq> set ids' \<longrightarrow> (\<exists>r. redraw ids hi e i = Some r)"
proof (rule redraw.raw_induct
    [where P = "\<lambda>ids' hi e i r'. \<forall>ids. set ids \<subseteq> set ids' \<longrightarrow> (\<exists>r. redraw ids hi e i = Some r)",
      OF _ assms])
  fix f ids' hi e i r'
  assume IH: "\<And>ids' hi e i r'. f ids' hi e i = Some r' \<Longrightarrow>
      \<forall>ids. set ids \<subseteq> set ids' \<longrightarrow> (\<exists>r. redraw ids hi e i = Some r)"
    and eq: "(if i \<in> set ids' then f ids' hi (\<lambda>n. e (Suc n)) (randint 1 hi (e 0)) else Some (i, e)) = Some r'"
  show "\<forall>ids. set ids \<subseteq> set ids' \<longrightarrow> (\<exists>r. redraw ids hi e i = Some r)"
  proof (intro allI impI)
    fix ids assume sub: "set ids \<subseteq> set ids'"
    show "\<exists>r. redraw ids hi e i = Some r"
    proof (cases "i \<in> set ids")
      case False
      then show ?thesis by (subst redraw.simps) simp
    next
      case True
      with sub have "i \<in> set ids'" by blast
      with eq have "f ids' hi (\<lambda>n. e (Suc n)) (randint 1 hi (e 0)) = Some r'" by simp
      from IH [OF this] sub obtain r where
        "redraw ids hi (\<lambda>n. e (Suc n)) (randint 1 hi (e 0)) = Some r" by blast
      with True show ?thesis by (subst redraw.simps) simp
    qed
  qed
qed

section \<open>Building and sending a message\<close>

lemma first_draw_accepted:
  "randint 1 hi (e n) \<notin> set ids \<Longrightarrow>
   \<exists>r. redraw ids hi (\<lambda>n. e (Suc n)) (randint 1 hi (e 0)) = Some r"
proof (cases n)
  case 0
  assume "randint 1 hi (e n) \<notin> set ids"
  with 0 show ?thesis by (subst redraw.simps) simp
next
  case (Suc m)
  assume "randint 1 hi (e n) \<notin> set ids"
  with Suc show ?thesis using redraw_accepts [of hi "\<lambda>n. e (Suc n)" m ids] by simp
qed

lemma first_draw_rejected:
  assumes "\<forall>n. randint 1 hi (e n) \<in> set ids"
  shows "redraw ids hi (\<lambda>n. e (Suc n)) (randint 1 hi (e 0)) = None"
  using assms by (intro redraw_exhausted) simp_all

text \<open>The message that \<open>create_message\<close> builds for an identifier.\<close>

lemma create_message_Returns:
  assumes "create_message type kw s = Returns u s'"
  shows "\<exists>i m e'. i \<notin> set (all_ids s) \<and> 1 \<le> i \<and> i \<le> id_max s \<and> 1 \<le> id_max s
     \<and> message_id m = i
     \<and> s' = s\<lparr>all_ids := all_ids s @ [i], entropy := e',
              current_ids := (if type = ''request''
                 then (current_ids s)(kwargs_get (kw_command kw) [] \<mapsto> i) else current_ids s),
              requests_queue := requests_queue s @ [m]\<rparr>"
proof -
  from assms have hi: "1 \<le> id_max s"
    by (auto simp: create_message_def split: if_splits)
  with assms obtain i e' where
    rd: "redraw (all_ids s) (id_max s) (\<lambda>n. entropy s (Suc n)) (randint 1 (id_max s) (entropy s 0))
          = Some (i, e')"
    by (auto simp: create_message_def split: option.splits)
  from redraw_fresh [OF rd] have fresh: "i \<notin> set (all_ids s)" by simp
  from redraw_range [OF rd] hi randint_range [OF hi, of "entropy s 0"]
  have range: "1 \<le> i \<and> i \<le> id_max s" by simp
  let ?m = "if type = ''ping'' then Ping i
     else if type = ''request'' then
       Request i (kwargs_get (kw_command kw) []) (kwargs_get (kw_file kw) [])
         (kwargs_get (kw_expected_keywords kw) []) (kwargs_get (kw_current_word kw) [])
         (kwargs_get (kw_language kw) []) (kwargs_get (kw_text_range kw) (1, -1))
     else if type = ''notification'' then
       Notification i (kwargs_get (kw_remove kw) False) (kwargs_get (kw_filename kw) [])
         (kwargs_get (kw_contents kw) [])
     else Ping i"
  from assms hi rd have
    "message_id ?m = i \<and>
       s' = s\<lparr>all_ids := all_ids s @ [i], entropy := e',
              current_ids := (if type = ''request''
                 then (current_ids s)(kwargs_get (kw_command kw) [] \<mapsto> i) else current_ids s),
              requests_queue := requests_queue s @ [?m]\<rparr>"
    by (auto simp: create_message_def send_message_def Let_def split: if_splits)
  then have
    "\<exists>m. message_id m = i \<and>
       s' = s\<lparr>all_ids := all_ids s @ [i], entropy := e',
              current_ids := (if type = ''request''
                 then (current_ids s)(kwargs_get (kw_command kw) [] \<mapsto> i) else current_ids s),
              requests_queue := requests_queue s @ [m]\<rparr>"
    by (rule exI [of _ ?m])
  with fresh range hi show ?thesis by blast
qed

lemma create_message_Raises:
  "create_message type kw s = Raises err s' \<Longrightarrow> err = ValueError \<and> s' = s \<and> id_max s < 1"
  by (auto simp: create_message_def Let_def split: if_splits option.splits)

lemma create_message_Diverges:
  assumes "1 \<le> id_max s"
  shows "create_message type kw s = Diverges
     \<longleftrightarrow> (\<forall>n. randint 1 (id_max s) (entropy s n) \<in> set (all_ids s))"
proof
  assume "\<forall>n. randint 1 (id_max s) (entropy s n) \<in> set (all_ids s)"
  from first_draw_rejected [OF this] assms show "create_message type kw s = Diverges"
    by (simp add: create_message_def)
next
  assume d: "create_message type kw s = Diverges"
  show "\<forall>n. randint 1 (id_max s) (entropy s n) \<in> set (all_ids s)"
  proof (rule ccontr)
    assume "\<not> (\<forall>n. randint 1 (id_max s) (entropy s n) \<in> set (all_ids s))"
    then obtain n where "randint 1 (id_max s) (entropy s n) \<notin> set (all_ids s)" by blast
    from first_draw_accepted [where e = "entropy s", OF this] obtain r where
      "redraw (all_ids s) (id_max s) (\<lambda>n. entropy s (Suc n)) (randint 1 (id_max s) (entropy s 0))
        = Some r" by blast
    with d assms show False
      by (auto simp: create_message_def Let_def split: if_splits prod.splits)
  qed
qed

lemma create_message_total:
  assumes "1 \<le> id_max s" and "randint 1 (id_max s) (entropy s n) \<notin> set (all_ids s)"
  shows "\<exists>s'. create_message type kw s = Returns () s'"
proof (cases "create_message type kw s")
  case (Returns u s')
  then show ?thesis by simp
next
  case (Raises err s')
  with create_message_Raises [OF Raises] assms show ?thesis by simp
next
  case Diverges
  with create_message_Diverges [OF assms(1)] assms(2) show ?thesis by blast
qed

lemma free_identifier:
  assumes "length ids < nat hi"
  shows "\<exists>j. 1 \<le> j \<and> j \<le> hi \<and> j \<notin> set ids"
proof (rule ccontr)
  assume "\<not> (\<exists>j. 1 \<le> j \<and> j \<le> hi \<and> j \<notin> set ids)"
  then have "{1..hi} \<subseteq> set ids" by auto
  then have "card {1..hi} \<le> card (set ids)" by (intro card_mono) simp_all
  also have "\<dots> \<le> length ids" by (rule card_length)
  finally show False using assms by simp
qed

section \<open>When the allocation returns\<close>

lemma constant_source_accepted:
  assumes "1 \<le> j" "j \<le> id_max s" "j \<notin> set (all_ids s)"
  shows "\<exists>s'. create_message type kw (s\<lparr>entropy := \<lambda>n. nat (j - 1)\<rparr>) = Returns () s'"
proof -
  from assms have "1 \<le> id_max (s\<lparr>entropy := \<lambda>n. nat (j - 1)\<rparr>)" by simp
  moreover from assms have
    "randint 1 (id_max (s\<lparr>entropy := \<lambda>n. nat (j - 1)\<rparr>)) (entropy (s\<lparr>entropy := \<lambda>n. nat (j - 1)\<rparr>) 0)
       \<notin> set (all_ids (s\<lparr>entropy := \<lambda>n. nat (j - 1)\<rparr>))"
    by (simp add: randint_onto)
  ultimately show ?thesis by (rule create_message_total)
qed

lemma constant_source_rejected:
  assumes "1 \<le> j" "j \<le> id_max s"
  shows "create_message type kw (s\<lparr>all_ids := all_ids s @ [j], entropy := \<lambda>n. nat (j - 1)\<rparr>) = Diverges"
proof -
  let ?t = "s\<lparr>all_ids := all_ids s @ [j], entropy := \<lambda>n. nat (j - 1)\<rparr>"
  from assms have "1 \<le> id_max ?t" by simp
  from create_message_Diverges [OF this] assms show ?thesis
    by (simp add: randint_onto)
qed

lemma full_rejects_all:
  assumes "1 \<le> id_max s" "{1..id_max s} \<subseteq> set (all_ids s)"
  shows "create_message type kw (s\<lparr>entropy := e\<rparr>) = Diverges"
proof -
  have "1 \<le> id_max (s\<lparr>entropy := e\<rparr>)" using assms by simp
  from create_message_Diverges [OF this] assms randint_range [OF assms(1)]
  show ?thesis by (auto simp: subset_iff)
qed

lemma fewer_outstanding_accepted:
  assumes "set ids \<subseteq> set (all_ids s)" "create_message type kw s = Returns u s'"
  shows "\<exists>t. create_message type kw (s\<lparr>all_ids := ids\<rparr>) = Returns () t"
proof -
  from create_message_Returns [OF assms(2)] have hi: "1 \<le> id_max s" by blast
  have "create_message type kw s \<noteq> Diverges" using assms(2) by simp
  with create_message_Diverges [OF hi] obtain n where
    "randint 1 (id_max s) (entropy s n) \<notin> set (all_ids s)" by blast
  with assms(1) have "randint 1 (id_max (s\<lparr>all_ids := ids\<rparr>)) (entropy (s\<lparr>all_ids := ids\<rparr>) n)
      \<notin> set (all_ids (s\<lparr>all_ids := ids\<rparr>))" by auto
  moreover have "1 \<le> id_max (s\<lparr>all_ids := ids\<rparr>)" using hi by simp
  ultimately show ?thesis by (rule create_message_total [rotated])
qed

text \<open>
  C8: the allocation in \<open>create_message\<close> redraws until a draw is not outstanding and
  checks no bound: with a non-empty identifier range it never raises, and it fails to
  return exactly when the random source only ever produces outstanding identifiers. With
  fewer than \<open>id_max\<close> identifiers outstanding there is a free identifier, and the call
  returns on every random source that produces a free identifier at some point. Each
  further outstanding identifier takes random sources away from those on which the call
  returns (it returns with fewer identifiers outstanding whenever it returns with more,
  and the source that only draws a free identifier \<open>j\<close> is lost once \<open>j\<close> is
  outstanding). When every identifier from 1 to \<open>id_max\<close> is outstanding, the call
  returns on no random source at all.
\<close>

theorem allocation_without_bound_check:
  assumes "1 \<le> id_max s"
  shows "(create_message type kw s = Diverges
           \<longleftrightarrow> (\<forall>n. randint 1 (id_max s) (entropy s n) \<in> set (all_ids s)))
     \<and> (\<forall>err s'. create_message type kw s \<noteq> Raises err s')
     \<and> (length (all_ids s) < nat (id_max s)
          \<longrightarrow> (\<exists>j. 1 \<le> j \<and> j \<le> id_max s \<and> j \<notin> set (all_ids s)))
     \<and> (\<forall>e. (\<exists>n. randint 1 (id_max s) (e n) \<notin> set (all_ids s))
          \<longrightarrow> (\<exists>s'. create_message type kw (s\<lparr>entropy := e\<rparr>) = Returns () s'))
     \<and> (\<forall>ids u s'. set ids \<subseteq> set (all_ids s) \<and> create_message type kw s = Returns u s'
          \<longrightarrow> (\<exists>t. create_message type kw (s\<lparr>all_ids := ids\<rparr>) = Returns () t))
     \<and> (\<forall>j. 1 \<le> j \<and> j \<le> id_max s \<and> j \<notin> set (all_ids s)
          \<longrightarrow> (\<exists>s'. create_message type kw (s\<lparr>entropy := \<lambda>n. nat (j - 1)\<rparr>) = Returns () s')
            \<and> create_message type kw
                 (s\<lparr>all_ids := all_ids s @ [j], entropy := \<lambda>n. nat (j - 1)\<rparr>) = Diverges)
     \<and> ({1..id_max s} \<subseteq> set (all_ids s)
          \<longrightarrow> (\<forall>e. create_message type kw (s\<lparr>entropy := e\<rparr>) = Diverges))"
proof (intro conjI)
  show "create_message type kw s = Diverges
      \<longleftrightarrow> (\<forall>n. randint 1 (id_max s) (entropy s n) \<in> set (all_ids s))"
    by (rule create_message_Diverges [OF assms])
  show "\<forall>err s'. create_message type kw s \<noteq> Raises err s'"
    using create_message_Raises [of type kw s] assms by fastforce
  show "length (all_ids s) < nat (id_max s)
      \<longrightarrow> (\<exists>j. 1 \<le> j \<and> j \<le> id_max s \<and> j \<notin> set (all_ids s))"
    using free_identifier by blast
  show "\<forall>e. (\<exists>n. randint 1 (id_max s) (e n) \<notin> set (all_ids s))
      \<longrightarrow> (\<exists>s'. create_message type kw (s\<lparr>entropy := e\<rparr>) = Returns () s')"
  proof (intro allI impI)
    fix e :: "nat \<Rightarrow> nat"
    assume "\<exists>n. randint 1 (id_max s) (e n) \<notin> set (all_ids s)"
    then obtain n where "randint 1 (id_max s) (e n) \<notin> set (all_ids s)" ..
    then show "\<exists>s'. create_message type kw (s\<lparr>entropy := e\<rparr>) = Returns () s'"
      using create_message_total [of "s\<lparr>entropy := e\<rparr>" n type kw] assms by simp
  qed
  show "\<forall>ids u s'. set ids \<subseteq> set (all_ids s) \<and> create_message type kw s = Returns u s'
      \<longrightarrow> (\<exists>t. create_message type kw (s\<lparr>all_ids := ids\<rparr>) = Returns () t)"
    using fewer_outstanding_accepted by blast
  show "\<forall>j. 1 \<le> j \<and> j \<le> id_max s \<and> j \<notin> set (all_ids s)
      \<longrightarrow> (\<exists>s'. create_message type kw (s\<lparr>entropy := \<lambda>n. nat (j - 1)\<rparr>) = Returns () s')
        \<and> create_message type kw
             (s\<lparr>all_ids := all_ids s @ [j], entropy := \<lambda>n. nat (j - 1)\<rparr>) = Diverges"
    using constant_source_accepted constant_source_rejected by blast
  show "{1..id_max s} \<subseteq> set (all_ids s)
      \<longrightarrow> (\<forall>e. create_message type kw (s\<lparr>entropy := e\<rparr>) = Diverges)"
    using full_rejects_all [OF assms] by blast
qed

theorem allocation_without_bound_check_witness:
  "1 \<le> id_max ((new_ipc 2 (\<lambda>n. n))\<lparr>all_ids := [1]\<rparr>)
   \<and> (\<exists>s'. create_message ''ping'' no_kwargs
          ((new_ipc 2 (\<lambda>n. n))\<lparr>all_ids := [1], entropy := \<lambda>n. nat (2 - 1)\<rparr>) = Returns () s')
   \<and> create_message ''ping'' no_kwargs
          ((new_ipc 2 (\<lambda>n. n))\<lparr>all_ids := [1] @ [2], entropy := \<lambda>n. nat (2 - 1)\<rparr>) = Diverges"
proof -
  let ?s = "(new_ipc 2 (\<lambda>n. n))\<lparr>all_ids := [1]\<rparr>"
  have hi: "1 \<le> id_max ?s" by (simp add: new_ipc_def)
  have "\<forall>j. 1 \<le> j \<and> j \<le> id_max ?s \<and> j \<notin> set (all_ids ?s)
      \<longrightarrow> (\<exists>s'. create_message ''ping'' no_kwargs (?s\<lparr>entropy := \<lambda>n. nat (j - 1)\<rparr>) = Returns () s')
        \<and> create_message ''ping'' no_kwargs
             (?s\<lparr>all_ids := all_ids ?s @ [j], entropy := \<lambda>n. nat (j - 1)\<rparr>) = Diverges"
    using allocation_without_bound_check [OF hi, of "''ping''" no_kwargs] by blast
  from this [rule_format, of 2] hi show ?thesis by (simp add: new_ipc_def)
qed

section \<open>What every history keeps\<close>

lemma new_ipc_ids_ok: "ids_ok (new_ipc idmax e)"
  by (simp add: ids_ok_def new_ipc_def)

lemma new_ipc_tables_ok: "tables_ok (new_ipc idmax e)"
  by (simp add: tables_ok_def new_ipc_def dom_map_of_conv_image_fst image_comp comp_def)

lemma tables_ok_same:
  "current_ids s' = current_ids s \<Longrightarrow> newest_responses s' = newest_responses s
   \<Longrightarrow> tables_ok s' = tables_ok s"
  by (simp add: tables_ok_def)

lemma tables_ok_dom:
  "tables_ok s \<Longrightarrow> dom (current_ids s') = dom (current_ids s)
   \<Longrightarrow> dom (newest_responses s') = dom (newest_responses s) \<Longrightarrow> tables_ok s'"
  by (simp add: tables_ok_def)

lemma tables_ok_keys:
  "tables_ok s \<Longrightarrow> c \<in> set COMMANDS
   \<Longrightarrow> c \<in> dom (current_ids s) \<and> c \<in> dom (newest_responses s)"
  by (simp add: tables_ok_def)

lemma tables_ok_current: "tables_ok s \<Longrightarrow> current_ids s c = Some v \<Longrightarrow> c \<in> set COMMANDS"
  unfolding tables_ok_def by blast

lemma tables_ok_missing: "tables_ok s \<Longrightarrow> c \<notin> set COMMANDS \<Longrightarrow> current_ids s c = None"
  unfolding tables_ok_def by blast

lemma tables_ok_has_current:
  "tables_ok s \<Longrightarrow> c \<in> set COMMANDS \<Longrightarrow> \<exists>v. current_ids s c = Some v"
  unfolding tables_ok_def by blast

lemma tables_ok_has_slot:
  "tables_ok s \<Longrightarrow> c \<in> set COMMANDS \<Longrightarrow> \<exists>v. newest_responses s c = Some v"
  unfolding tables_ok_def by blast

lemma create_message_ids_ok:
  assumes "final_state (create_message type kw s) = Some s'" "ids_ok s"
  shows "ids_ok s'"
proof (cases "create_message type kw s")
  case (Returns u t)
  from create_message_Returns [OF Returns] assms Returns show ?thesis
    by (auto simp: ids_ok_def)
next
  case (Raises err t)
  from create_message_Raises [OF Raises] assms Raises show ?thesis by simp
next
  case Diverges
  with assms show ?thesis by simp
qed

lemma create_message_tables_ok:
  assumes "final_state (create_message type kw s) = Some s'" "tables_ok s"
    and "type = ''request'' \<longrightarrow> kwargs_get (kw_command kw) [] \<in> set COMMANDS"
  shows "tables_ok s'"
proof (cases "create_message type kw s")
  case (Returns u t)
  with assms(1) have t: "t = s'" by simp
  from create_message_Returns [OF Returns] t obtain i m e' where
    eq: "s' = s\<lparr>all_ids := all_ids s @ [i], entropy := e',
              current_ids := (if type = ''request''
                 then (current_ids s)(kwargs_get (kw_command kw) [] \<mapsto> i) else current_ids s),
              requests_queue := requests_queue s @ [m]\<rparr>"
    by blast
  have cur: "current_ids s' = (if type = ''request''
       then (current_ids s)(kwargs_get (kw_command kw) [] \<mapsto> i) else current_ids s)"
    by (subst eq) simp
  have slot: "newest_responses s' = newest_responses s"
    by (subst eq) simp
  show ?thesis
  proof (cases "type = ''request''")
    case True
    with assms(3) have "kwargs_get (kw_command kw) [] \<in> set COMMANDS" by simp
    from tables_ok_keys [OF assms(2) this]
    have "dom (current_ids s') = dom (current_ids s)"
      by (simp add: cur True insert_absorb)
    with slot show ?thesis by (intro tables_ok_dom [OF assms(2)]) simp_all
  next
    case False
    with cur slot assms(2) tables_ok_same [of s' s] show ?thesis by simp
  qed
next
  case (Raises err t)
  from create_message_Raises [OF Raises] assms Raises show ?thesis by simp
next
  case Diverges
  with assms show ?thesis by simp
qed

lemma parse_response_ids_ok:
  "final_state (parse_response res s) = Some s' \<Longrightarrow> ids_ok s \<Longrightarrow> ids_ok s'"
  by (auto simp: parse_response_def Let_def ids_ok_def split: if_splits option.splits
      dest: notin_set_remove1)

lemma parse_response_final:
  assumes "final_state (parse_response res s) = Some s'"
  shows "s' = s \<or> s' = s\<lparr>all_ids := remove1 (res_id res) (all_ids s)\<rparr>
     \<or> (\<exists>c. res_command res = Some c \<and> current_ids s c = Some (res_id res)
          \<and> s' = s\<lparr>all_ids := remove1 (res_id res) (all_ids s),
                      current_ids := (current_ids s)(c \<mapsto> 0),
                      newest_responses := (newest_responses s)(c \<mapsto> Some res)\<rparr>)"
  using assms
  by (simp add: parse_response_def Let_def split: if_splits option.splits)

lemma parse_response_tables_ok:
  assumes "final_state (parse_response res s) = Some s'" "tables_ok s"
  shows "tables_ok s'"
proof -
  from parse_response_final [OF assms(1)] consider
    "current_ids s' = current_ids s" "newest_responses s' = newest_responses s"
    | c where "current_ids s c = Some (res_id res)"
       "current_ids s' = (current_ids s)(c \<mapsto> 0)"
       "newest_responses s' = (newest_responses s)(c \<mapsto> Some res)"
    by (elim disjE exE conjE) simp_all
  then show ?thesis
  proof cases
    case 1
    with assms(2) tables_ok_same [of s' s] show ?thesis by simp
  next
    case 2
    from tables_ok_current [OF assms(2) 2(1)] have "c \<in> set COMMANDS" .
    from tables_ok_keys [OF assms(2) this]
    have "dom (current_ids s') = dom (current_ids s)"
      and "dom (newest_responses s') = dom (newest_responses s)"
      by (simp_all add: 2 insert_absorb)
    then show ?thesis by (rule tables_ok_dom [OF assms(2)])
  qed
qed

lemma parse_response_queue:
  "final_state (parse_response res s) = Some s' \<Longrightarrow> response_queue s' = response_queue s"
  by (auto simp: parse_response_def Let_def split: if_splits option.splits)

lemma parse_response_never_diverges: "parse_response res s \<noteq> Diverges"
  by (auto simp: parse_response_def Let_def split: if_splits option.splits)

lemma drain_never_diverges: "drain q s \<noteq> Diverges"
  by (induction q arbitrary: s) (auto split: outcome.splits simp: parse_response_never_diverges)

lemma drain_ids_ok:
  "final_state (drain q s) = Some s' \<Longrightarrow> ids_ok s \<Longrightarrow> ids_ok s'"
proof (induction q arbitrary: s)
  case Nil
  then show ?case by (auto simp: ids_ok_def)
next
  case (Cons res q)
  have start: "ids_ok (s\<lparr>response_queue := q\<rparr>)" using Cons.prems by (simp add: ids_ok_def)
  show ?case
  proof (cases "parse_response res (s\<lparr>response_queue := q\<rparr>)")
    case (Returns u t)
    with parse_response_ids_ok [OF _ start, of res t] have "ids_ok t" by simp
    with Cons Returns show ?thesis by simp
  next
    case (Raises err t)
    with parse_response_ids_ok [OF _ start, of res t] Cons.prems show ?thesis by simp
  next
    case Diverges
    with Cons.prems show ?thesis by simp
  qed
qed

lemma drain_tables_ok:
  "final_state (drain q s) = Some s' \<Longrightarrow> tables_ok s \<Longrightarrow> tables_ok s'"
proof (induction q arbitrary: s)
  case Nil
  then show ?case using tables_ok_same [of s' s] by auto
next
  case (Cons res q)
  have start: "tables_ok (s\<lparr>response_queue := q\<rparr>)"
    using Cons.prems tables_ok_same [of "s\<lparr>response_queue := q\<rparr>" s] by simp
  show ?case
  proof (cases "parse_response res (s\<lparr>response_queue := q\<rparr>)")
    case (Returns u t)
    with parse_response_tables_ok [OF _ start, of res t] have "tables_ok t" by simp
    with Cons Returns show ?thesis by simp
  next
    case (Raises err t)
    with parse_response_tables_ok [OF _ start, of res t] Cons.prems show ?thesis by simp
  next
    case Diverges
    with Cons.prems show ?thesis by simp
  qed
qed

lemma tables_ok_set_current:
  "tables_ok s \<Longrightarrow> c \<in> set COMMANDS
   \<Longrightarrow> tables_ok (s\<lparr>current_ids := (current_ids s)(c \<mapsto> v)\<rparr>)"
  by (simp add: tables_ok_def insert_absorb)

lemma tables_ok_set_slot:
  "tables_ok s \<Longrightarrow> c \<in> set COMMANDS
   \<Longrightarrow> tables_ok (s\<lparr>newest_responses := (newest_responses s)(c \<mapsto> v)\<rparr>)"
  by (simp add: tables_ok_def insert_absorb)

lemma killed_ids_ok: "ids_ok (killed s) = ids_ok s"
  by (simp add: killed_def ids_ok_def)

lemma killed_tables_ok: "tables_ok (killed s) = tables_ok s"
  by (simp add: killed_def tables_ok_def)

lemma get_response_ids_ok:
  "final_state (get_response c s) = Some s' \<Longrightarrow> ids_ok s \<Longrightarrow> ids_ok s'"
proof -
  assume a: "final_state (get_response c s) = Some s'" and ok: "ids_ok s"
  show ?thesis
  proof (cases "c \<in> set COMMANDS")
    case False
    with a ok show ?thesis by (auto simp: get_response_def killed_ids_ok)
  next
    case True
    show ?thesis
    proof (cases "drain (response_queue s) s")
      case (Returns u t)
      with drain_ids_ok [OF _ ok, of "response_queue s" t] have "ids_ok t" by simp
      with a True Returns show ?thesis
        by (auto simp: get_response_def check_responses_def ids_ok_def split: option.splits)
    next
      case (Raises err t)
      with drain_ids_ok [OF _ ok, of "response_queue s" t] have "ids_ok t" by simp
      with a True Raises show ?thesis
        by (auto simp: get_response_def check_responses_def)
    next
      case Diverges
      with a True show ?thesis by (auto simp: get_response_def check_responses_def)
    qed
  qed
qed

lemma get_response_tables_ok:
  "final_state (get_response c s) = Some s' \<Longrightarrow> tables_ok s \<Longrightarrow> tables_ok s'"
proof -
  assume a: "final_state (get_response c s) = Some s'" and ok: "tables_ok s"
  show ?thesis
  proof (cases "c \<in> set COMMANDS")
    case False
    with a ok show ?thesis by (auto simp: get_response_def killed_tables_ok)
  next
    case True
    show ?thesis
    proof (cases "drain (response_queue s) s")
      case (Returns u t)
      with drain_tables_ok [OF _ ok, of "response_queue s" t] have "tables_ok t" by simp
      with a True Returns show ?thesis
        by (auto simp: get_response_def check_responses_def tables_ok_set_slot
            split: option.splits)
    next
      case (Raises err t)
      with drain_tables_ok [OF _ ok, of "response_queue s" t] have "tables_ok t" by simp
      with a True Raises show ?thesis
        by (auto simp: get_response_def check_responses_def)
    next
      case Diverges
      with a True show ?thesis by (auto simp: get_response_def check_responses_def)
    qed
  qed
qed

lemma update_file_ids_ok:
  "final_state (update_file f d s) = Some s' \<Longrightarrow> ids_ok s \<Longrightarrow> ids_ok s'"
  unfolding update_file_def
  by (erule create_message_ids_ok) (simp add: ids_ok_def)

lemma update_file_tables_ok:
  "final_state (update_file f d s) = Some s' \<Longrightarrow> tables_ok s \<Longrightarrow> tables_ok s'"
  unfolding update_file_def
  using tables_ok_same [of "s\<lparr>files := AList.update f d (files s)\<rparr>" s]
  by (auto elim: create_message_tables_ok)

lemma replay_ids_ok:
  "final_state (replay fs s) = Some s' \<Longrightarrow> ids_ok s \<Longrightarrow> ids_ok s'"
proof (induction fs arbitrary: s)
  case Nil
  then show ?case by simp
next
  case (Cons fd fs)
  obtain f d where fd: "fd = (f, d)" by (cases fd)
  show ?case
  proof (cases "update_file f d s")
    case (Returns u t)
    with update_file_ids_ok [OF _ Cons.prems(2), of f d t] have "ids_ok t" by simp
    with Cons Returns fd show ?thesis by simp
  next
    case (Raises err t)
    with update_file_ids_ok [OF _ Cons.prems(2), of f d t] Cons.prems fd show ?thesis by simp
  next
    case Diverges
    with Cons.prems fd show ?thesis by simp
  qed
qed

lemma replay_tables_ok:
  "final_state (replay fs s) = Some s' \<Longrightarrow> tables_ok s \<Longrightarrow> tables_ok s'"
proof (induction fs arbitrary: s)
  case Nil
  then show ?case by simp
next
  case (Cons fd fs)
  obtain f d where fd: "fd = (f, d)" by (cases fd)
  show ?case
  proof (cases "update_file f d s")
    case (Returns u t)
    with update_file_tables_ok [OF _ Cons.prems(2), of f d t] have "tables_ok t" by simp
    with Cons Returns fd show ?thesis by simp
  next
    case (Raises err t)
    with update_file_tables_ok [OF _ Cons.prems(2), of f d t] Cons.prems fd show ?thesis by simp
  next
    case Diverges
    with Cons.prems fd show ?thesis by simp
  qed
qed

lemma create_server_ids_ok:
  assumes "final_state (create_server s) = Some s'" "ids_ok s"
  shows "ids_ok s'"
proof -
  let ?t = "s\<lparr>server_alive := True, servers_started := Suc (servers_started s), files := []\<rparr>"
  have "ids_ok ?t" using assms(2) by (simp add: ids_ok_def)
  moreover have "final_state (replay (files s) ?t) = Some s'"
    using assms(1) by (simp add: create_server_def Let_def)
  ultimately show ?thesis using replay_ids_ok by blast
qed

lemma create_server_tables_ok:
  assumes "final_state (create_server s) = Some s'" "tables_ok s"
  shows "tables_ok s'"
proof -
  let ?t = "s\<lparr>server_alive := True, servers_started := Suc (servers_started s), files := []\<rparr>"
  have "tables_ok ?t" using assms(2) tables_ok_same [of ?t s] by simp
  moreover have "final_state (replay (files s) ?t) = Some s'"
    using assms(1) by (simp add: create_server_def Let_def)
  ultimately show ?thesis using replay_tables_ok by blast
qed

lemma check_server_ids_ok:
  "final_state (check_server s) = Some s' \<Longrightarrow> ids_ok s \<Longrightarrow> ids_ok s'"
  by (auto simp: check_server_def split: if_splits elim: create_server_ids_ok)

lemma check_server_tables_ok:
  "final_state (check_server s) = Some s' \<Longrightarrow> tables_ok s \<Longrightarrow> tables_ok s'"
  by (auto simp: check_server_def split: if_splits elim: create_server_tables_ok)

lemma perform_ids_ok:
  assumes "perform ev s = Some s'" "ids_ok s"
  shows "ids_ok s'"
proof (cases ev)
  case DoPing
  with assms show ?thesis by (auto simp: ping_def elim: create_message_ids_ok)
next
  case (DoRequest c f ks w l r)
  with assms show ?thesis
    by (auto simp: request_def killed_ids_ok split: if_splits elim: create_message_ids_ok)
next
  case (DoCancel c)
  with assms show ?thesis
    by (auto simp: cancel_request_def killed_ids_ok split: if_splits) (simp add: ids_ok_def)
next
  case (DoGet c)
  with assms show ?thesis by (auto elim: get_response_ids_ok)
next
  case (DoUpdate f d)
  with assms show ?thesis by (auto elim: update_file_ids_ok)
next
  case (DoRemove f)
  with assms show ?thesis
    by (auto simp: remove_file_def killed_ids_ok split: if_splits elim: create_message_ids_ok)
next
  case DoKill
  with assms show ?thesis by (auto simp: kill_IPC_def killed_ids_ok)
next
  case DoCheckServer
  with assms show ?thesis by (auto elim: check_server_ids_ok)
next
  case (WorkerPuts res)
  with assms show ?thesis by (auto simp: ids_ok_def)
next
  case WorkerExits
  with assms show ?thesis by (auto simp: killed_ids_ok)
qed

lemma perform_tables_ok:
  assumes "perform ev s = Some s'" "tables_ok s"
  shows "tables_ok s'"
proof (cases ev)
  case DoPing
  with assms show ?thesis by (auto simp: ping_def elim: create_message_tables_ok)
next
  case (DoRequest c f ks w l r)
  with assms show ?thesis
    by (auto simp: request_def killed_tables_ok split: if_splits elim!: create_message_tables_ok)
next
  case (DoCancel c)
  with assms show ?thesis
    by (auto simp: cancel_request_def killed_tables_ok tables_ok_set_current split: if_splits)
next
  case (DoGet c)
  with assms show ?thesis by (auto elim: get_response_tables_ok)
next
  case (DoUpdate f d)
  with assms show ?thesis by (auto elim: update_file_tables_ok)
next
  case (DoRemove f)
  with assms show ?thesis
    by (auto simp: remove_file_def killed_tables_ok split: if_splits elim: create_message_tables_ok)
next
  case DoKill
  with assms show ?thesis by (auto simp: kill_IPC_def killed_tables_ok)
next
  case DoCheckServer
  with assms show ?thesis by (auto elim: check_server_tables_ok)
next
  case (WorkerPuts res)
  with assms show ?thesis using tables_ok_same [of s' s] by auto
next
  case WorkerExits
  with assms show ?thesis by (auto simp: killed_tables_ok)
qed

lemma run_ids_ok: "run evs s = Some s' \<Longrightarrow> ids_ok s \<Longrightarrow> ids_ok s'"
  by (induction evs arbitrary: s) (auto split: option.splits dest: perform_ids_ok)

lemma run_tables_ok: "run evs s = Some s' \<Longrightarrow> tables_ok s \<Longrightarrow> tables_ok s'"
  by (induction evs arbitrary: s) (auto split: option.splits dest: perform_tables_ok)

lemma reachable_ids_ok: "reachable s \<Longrightarrow> ids_ok s"
  by (induction rule: reachable.induct)
     (auto simp: IPC_returns new_ipc_ids_ok elim: perform_ids_ok)

lemma reachable_tables_ok: "reachable s \<Longrightarrow> tables_ok s"
  by (induction rule: reachable.induct)
     (auto simp: IPC_returns new_ipc_tables_ok elim: perform_tables_ok)

section \<open>Identifiers are fresh and distinct\<close>

lemma create_message_allocates:
  assumes "create_message type kw s = Returns u s'"
  shows "\<exists>i m. 1 \<le> i \<and> i \<le> id_max s \<and> i \<notin> set (all_ids s)
     \<and> all_ids s' = all_ids s @ [i]
     \<and> requests_queue s' = requests_queue s @ [m] \<and> message_id m = i
     \<and> id_max s' = id_max s"
proof -
  from create_message_Returns [OF assms] obtain i m e' where
    props: "i \<notin> set (all_ids s)" "1 \<le> i" "i \<le> id_max s" "message_id m = i"
    and eq: "s' = s\<lparr>all_ids := all_ids s @ [i], entropy := e',
              current_ids := (if type = ''request''
                 then (current_ids s)(kwargs_get (kw_command kw) [] \<mapsto> i) else current_ids s),
              requests_queue := requests_queue s @ [m]\<rparr>"
    by blast
  have "all_ids s' = all_ids s @ [i]" "requests_queue s' = requests_queue s @ [m]"
    "id_max s' = id_max s"
    by (subst eq, simp)+
  with props show ?thesis by blast
qed

lemma create_messages_allocate:
  "create_messages reqs s = Returns u s' \<Longrightarrow>
   \<exists>new. all_ids s' = all_ids s @ new \<and> length new = length reqs
     \<and> (\<forall>i \<in> set new. 1 \<le> i \<and> i \<le> id_max s)
     \<and> map message_id (requests_queue s') = map message_id (requests_queue s) @ new
     \<and> id_max s' = id_max s"
proof (induction reqs arbitrary: s)
  case Nil
  then show ?case by simp
next
  case (Cons req reqs)
  obtain type kw where req: "req = (type, kw)" by (cases req)
  from Cons.prems req obtain t where
    first: "create_message type kw s = Returns () t" and rest: "create_messages reqs t = Returns u s'"
    by (auto split: outcome.splits)
  from create_message_allocates [OF first] obtain i m where
    i: "1 \<le> i" "i \<le> id_max s" "all_ids t = all_ids s @ [i]"
      "requests_queue t = requests_queue s @ [m]" "message_id m = i" "id_max t = id_max s"
    by blast
  from Cons.IH [OF rest] obtain new where
    new: "all_ids s' = all_ids t @ new" "length new = length reqs"
      "\<forall>i \<in> set new. 1 \<le> i \<and> i \<le> id_max t"
      "map message_id (requests_queue s') = map message_id (requests_queue t) @ new"
      "id_max s' = id_max t"
    by blast
  have "all_ids s' = all_ids s @ (i # new)" using i new by simp
  moreover have "length (i # new) = length (req # reqs)" using new by simp
  moreover have "\<forall>j \<in> set (i # new). 1 \<le> j \<and> j \<le> id_max s" using i new by simp
  moreover have "map message_id (requests_queue s')
      = map message_id (requests_queue s) @ (i # new)" using i new by simp
  moreover have "id_max s' = id_max s" using i new by simp
  ultimately show ?case by blast
qed

lemma create_messages_ids_ok:
  "create_messages reqs s = Returns u s' \<Longrightarrow> ids_ok s \<Longrightarrow> ids_ok s'"
proof (induction reqs arbitrary: s)
  case Nil
  then show ?case by simp
next
  case (Cons req reqs)
  obtain type kw where req: "req = (type, kw)" by (cases req)
  from Cons.prems req obtain t where
    first: "create_message type kw s = Returns () t" and rest: "create_messages reqs t = Returns u s'"
    by (auto split: outcome.splits)
  from first have "final_state (create_message type kw s) = Some t" by simp
  from create_message_ids_ok [OF this Cons.prems(2)] have "ids_ok t" .
  from Cons.IH [OF rest this] show ?case .
qed

text \<open>
  C7: in every state that a history of the object reaches, the outstanding identifiers
  are pairwise distinct, lie between 1 and \<open>id_max\<close>, and 0 is not among them. An
  identifier that \<open>create_message\<close> allocates there lies between 1 and \<open>id_max\<close>, was
  not outstanding, and is appended to \<open>all_ids\<close>; the message sent carries it. Any number
  of allocations in a row, with no response observed in between, append as many
  identifiers, pairwise distinct, distinct from the ones outstanding before, and between
  1 and \<open>id_max\<close>; the messages sent carry them in order.
\<close>

theorem allocated_identifiers_distinct:
  assumes "reachable s"
  shows "distinct (all_ids s) \<and> 0 \<notin> set (all_ids s)
     \<and> (\<forall>i \<in> set (all_ids s). 1 \<le> i \<and> i \<le> id_max s)
     \<and> (\<forall>type kw u s'. create_message type kw s = Returns u s'
          \<longrightarrow> (\<exists>i m. 1 \<le> i \<and> i \<le> id_max s \<and> i \<noteq> 0 \<and> i \<notin> set (all_ids s)
                \<and> all_ids s' = all_ids s @ [i] \<and> distinct (all_ids s')
                \<and> requests_queue s' = requests_queue s @ [m] \<and> message_id m = i))
     \<and> (\<forall>reqs u s'. create_messages reqs s = Returns u s'
          \<longrightarrow> (\<exists>new. all_ids s' = all_ids s @ new \<and> length new = length reqs
                \<and> distinct new \<and> set new \<inter> set (all_ids s) = {}
                \<and> (\<forall>i \<in> set new. 1 \<le> i \<and> i \<le> id_max s)
                \<and> map message_id (requests_queue s')
                    = map message_id (requests_queue s) @ new))"
proof -
  from reachable_ids_ok [OF assms] have ok: "ids_ok s" .
  then have a: "distinct (all_ids s)" and b: "\<forall>i \<in> set (all_ids s). 1 \<le> i \<and> i \<le> id_max s"
    by (simp_all add: ids_ok_def)
  from b have z: "0 \<notin> set (all_ids s)" by auto
  have c: "\<forall>type kw u s'. create_message type kw s = Returns u s'
      \<longrightarrow> (\<exists>i m. 1 \<le> i \<and> i \<le> id_max s \<and> i \<noteq> 0 \<and> i \<notin> set (all_ids s)
            \<and> all_ids s' = all_ids s @ [i] \<and> distinct (all_ids s')
            \<and> requests_queue s' = requests_queue s @ [m] \<and> message_id m = i)"
  proof (intro allI impI)
    fix type kw u s'
    assume r: "create_message type kw s = Returns u s'"
    from create_message_allocates [OF r] obtain i m where
      i: "1 \<le> i" "i \<le> id_max s" "i \<notin> set (all_ids s)" "all_ids s' = all_ids s @ [i]"
        "requests_queue s' = requests_queue s @ [m]" "message_id m = i"
      by blast
    moreover from i a have "distinct (all_ids s')" by simp
    moreover from i have "i \<noteq> 0" by simp
    ultimately show "\<exists>i m. 1 \<le> i \<and> i \<le> id_max s \<and> i \<noteq> 0 \<and> i \<notin> set (all_ids s)
            \<and> all_ids s' = all_ids s @ [i] \<and> distinct (all_ids s')
            \<and> requests_queue s' = requests_queue s @ [m] \<and> message_id m = i"
      by blast
  qed
  have d: "\<forall>reqs u s'. create_messages reqs s = Returns u s'
      \<longrightarrow> (\<exists>new. all_ids s' = all_ids s @ new \<and> length new = length reqs
            \<and> distinct new \<and> set new \<inter> set (all_ids s) = {}
            \<and> (\<forall>i \<in> set new. 1 \<le> i \<and> i \<le> id_max s)
            \<and> map message_id (requests_queue s')
                = map message_id (requests_queue s) @ new)"
  proof (intro allI impI)
    fix reqs u s'
    assume r: "create_messages reqs s = Returns u s'"
    from create_messages_allocate [OF r] obtain new where
      new: "all_ids s' = all_ids s @ new" "length new = length reqs"
        "\<forall>i \<in> set new. 1 \<le> i \<and> i \<le> id_max s"
        "map message_id (requests_queue s') = map message_id (requests_queue s) @ new"
      by blast
    from create_messages_ids_ok [OF r ok] have "distinct (all_ids s')" by (simp add: ids_ok_def)
    with new(1) have "distinct new" "set new \<inter> set (all_ids s) = {}" by auto
    with new show "\<exists>new. all_ids s' = all_ids s @ new \<and> length new = length reqs
            \<and> distinct new \<and> set new \<inter> set (all_ids s) = {}
            \<and> (\<forall>i \<in> set new. 1 \<le> i \<and> i \<le> id_max s)
            \<and> map message_id (requests_queue s')
                = map message_id (requests_queue s) @ new"
      by blast
  qed
  from a z b c d show ?thesis by blast
qed

theorem allocated_identifiers_distinct_witness:
  "reachable (new_ipc 15000 (\<lambda>n. 7 * n))
   \<and> (\<exists>s'. create_messages [(''ping'', no_kwargs), (''notification'', no_kwargs), (''ping'', no_kwargs)]
          (new_ipc 15000 (\<lambda>n. 7 * n)) = Returns () s'
        \<and> all_ids s' = [1, 8, 15] \<and> distinct (all_ids s'))"
proof -
  let ?s = "new_ipc 15000 (\<lambda>n. 7 * n)"
  let ?reqs = "[(''ping'', no_kwargs), (''notification'', no_kwargs), (''ping'', no_kwargs)]"
  have r: "reachable ?s" by (rule reachable.init [OF IPC_returns])
  have "\<exists>s'. create_messages ?reqs ?s = Returns () s' \<and> all_ids s' = [1, 8, 15]"
    by (simp add: create_message_def new_ipc_def randint_def redraw.simps send_message_def)
  then obtain s' where run: "create_messages ?reqs ?s = Returns () s'"
    and ids: "all_ids s' = [1, 8, 15]" by blast
  from allocated_identifiers_distinct [OF r] run obtain new where
    "all_ids s' = all_ids ?s @ new" "distinct new" by blast
  then have "distinct (all_ids s')" by (simp add: new_ipc_def)
  with r run ids show ?thesis by blast
qed

section \<open>What a call leaves unchanged\<close>

lemma create_message_sent:
  assumes "create_message type kw s = Returns u s'"
  shows "\<exists>i. i \<notin> set (all_ids s) \<and> all_ids s' = all_ids s @ [i]
     \<and> requests_queue s' = requests_queue s @
         [if type = ''ping'' then Ping i
          else if type = ''request'' then
            Request i (kwargs_get (kw_command kw) []) (kwargs_get (kw_file kw) [])
              (kwargs_get (kw_expected_keywords kw) []) (kwargs_get (kw_current_word kw) [])
              (kwargs_get (kw_language kw) []) (kwargs_get (kw_text_range kw) (1, -1))
          else if type = ''notification'' then
            Notification i (kwargs_get (kw_remove kw) False) (kwargs_get (kw_filename kw) [])
              (kwargs_get (kw_contents kw) [])
          else Ping i]
     \<and> current_ids s' = (if type = ''request''
            then (current_ids s)(kwargs_get (kw_command kw) [] \<mapsto> i) else current_ids s)"
proof -
  from assms have hi: "1 \<le> id_max s"
    by (auto simp: create_message_def split: if_splits)
  with assms obtain i e' where
    rd: "redraw (all_ids s) (id_max s) (\<lambda>n. entropy s (Suc n)) (randint 1 (id_max s) (entropy s 0))
          = Some (i, e')"
    by (auto simp: create_message_def split: option.splits)
  from redraw_fresh [OF rd] have fresh: "i \<notin> set (all_ids s)" by simp
  from assms hi rd have
    "all_ids s' = all_ids s @ [i]
     \<and> requests_queue s' = requests_queue s @
         [if type = ''ping'' then Ping i
          else if type = ''request'' then
            Request i (kwargs_get (kw_command kw) []) (kwargs_get (kw_file kw) [])
              (kwargs_get (kw_expected_keywords kw) []) (kwargs_get (kw_current_word kw) [])
              (kwargs_get (kw_language kw) []) (kwargs_get (kw_text_range kw) (1, -1))
          else if type = ''notification'' then
            Notification i (kwargs_get (kw_remove kw) False) (kwargs_get (kw_filename kw) [])
              (kwargs_get (kw_contents kw) [])
          else Ping i]
     \<and> current_ids s' = (if type = ''request''
            then (current_ids s)(kwargs_get (kw_command kw) [] \<mapsto> i) else current_ids s)"
    by (auto simp: create_message_def send_message_def Let_def split: if_splits)
  with fresh show ?thesis by blast
qed

lemma create_message_frame:
  assumes "final_state (create_message type kw s) = Some s'"
  shows "set (all_ids s) \<subseteq> set (all_ids s') \<and> response_queue s' = response_queue s
     \<and> newest_responses s' = newest_responses s \<and> files s' = files s
     \<and> server_alive s' = server_alive s \<and> servers_started s' = servers_started s
     \<and> id_max s' = id_max s"
proof (cases "create_message type kw s")
  case (Returns u t)
  with assms have t: "t = s'" by simp
  from create_message_Returns [OF Returns] t obtain i m e' where
    eq: "s' = s\<lparr>all_ids := all_ids s @ [i], entropy := e',
              current_ids := (if type = ''request''
                 then (current_ids s)(kwargs_get (kw_command kw) [] \<mapsto> i) else current_ids s),
              requests_queue := requests_queue s @ [m]\<rparr>"
    by blast
  show ?thesis unfolding eq by auto
next
  case (Raises err t)
  from create_message_Raises [OF Raises] assms Raises show ?thesis by simp
next
  case Diverges
  with assms show ?thesis by simp
qed

section \<open>Identifiers stay outstanding until a response is observed\<close>

lemma unanswered_fields:
  "set (all_ids s) \<subseteq> set (all_ids s') \<Longrightarrow> set (response_queue s') \<subseteq> set (response_queue s)
   \<Longrightarrow> unanswered i s \<Longrightarrow> unanswered i s'"
  unfolding unanswered_def by blast

lemma create_message_unanswered:
  assumes "final_state (create_message type kw s) = Some s'" "unanswered i s"
  shows "unanswered i s'"
  using create_message_frame [OF assms(1)] assms(2) unanswered_fields [of s s' i] by simp

lemma update_file_frame:
  assumes "final_state (update_file f d s) = Some s'"
  shows "set (all_ids s) \<subseteq> set (all_ids s') \<and> response_queue s' = response_queue s
     \<and> newest_responses s' = newest_responses s
     \<and> server_alive s' = server_alive s \<and> servers_started s' = servers_started s
     \<and> id_max s' = id_max s \<and> current_ids s' = current_ids s"
proof -
  let ?t = "s\<lparr>files := AList.update f d (files s)\<rparr>"
  from assms have fin: "final_state (create_message ''notification''
      (no_kwargs\<lparr>kw_filename := Some f, kw_contents := Some d\<rparr>) ?t) = Some s'"
    by (simp add: update_file_def)
  have cur: "current_ids s' = current_ids s"
  proof (cases "create_message ''notification''
      (no_kwargs\<lparr>kw_filename := Some f, kw_contents := Some d\<rparr>) ?t")
    case (Returns u t)
    from create_message_sent [OF Returns] Returns fin show ?thesis by auto
  next
    case (Raises err t)
    from create_message_Raises [OF Raises] Raises fin show ?thesis by auto
  next
    case Diverges
    with fin show ?thesis by simp
  qed
  from create_message_frame [OF fin] cur show ?thesis by simp
qed

lemma replay_frame:
  "final_state (replay fs s) = Some s' \<Longrightarrow>
   set (all_ids s) \<subseteq> set (all_ids s') \<and> response_queue s' = response_queue s
     \<and> newest_responses s' = newest_responses s
     \<and> id_max s' = id_max s \<and> current_ids s' = current_ids s"
proof (induction fs arbitrary: s)
  case Nil
  then show ?case by simp
next
  case (Cons fd fs)
  obtain f d where fd: "fd = (f, d)" by (cases fd)
  show ?case
  proof (cases "update_file f d s")
    case (Returns u t)
    then have "final_state (update_file f d s) = Some t" by simp
    from update_file_frame [OF this] Cons.IH [of t] Cons.prems Returns fd
    show ?thesis by auto
  next
    case (Raises err t)
    then have "final_state (update_file f d s) = Some t" by simp
    from update_file_frame [OF this] Cons.prems Raises fd show ?thesis by auto
  next
    case Diverges
    with Cons.prems fd show ?thesis by simp
  qed
qed

lemma check_server_frame:
  assumes "final_state (check_server s) = Some s'"
  shows "set (all_ids s) \<subseteq> set (all_ids s') \<and> response_queue s' = response_queue s
     \<and> newest_responses s' = newest_responses s
     \<and> id_max s' = id_max s \<and> current_ids s' = current_ids s"
proof (cases "server_alive s")
  case True
  with assms show ?thesis by (simp add: check_server_def)
next
  case False
  let ?t = "s\<lparr>server_alive := True, servers_started := Suc (servers_started s), files := []\<rparr>"
  from False assms have "final_state (replay (files s) ?t) = Some s'"
    by (simp add: check_server_def create_server_def Let_def)
  from replay_frame [OF this] show ?thesis by simp
qed

lemma parse_response_keeps:
  assumes "final_state (parse_response res s) = Some s'" "i \<in> set (all_ids s)" "res_id res \<noteq> i"
  shows "i \<in> set (all_ids s')"
  using parse_response_final [OF assms(1)] assms(2,3) by auto

lemma parse_response_removes_only:
  assumes "final_state (parse_response res s) = Some s'"
  shows "set (all_ids s') \<subseteq> set (all_ids s)"
  using parse_response_final [OF assms(1)] set_remove1_subset [of "res_id res" "all_ids s"]
  by auto

lemma drain_keeps:
  "final_state (drain q s) = Some s' \<Longrightarrow> i \<in> set (all_ids s) \<Longrightarrow> i \<notin> res_id ` set q
   \<Longrightarrow> i \<in> set (all_ids s') \<and> set (response_queue s') \<subseteq> set q"
proof (induction q arbitrary: s)
  case Nil
  then show ?case by auto
next
  case (Cons res q)
  let ?t = "s\<lparr>response_queue := q\<rparr>"
  from Cons.prems have i: "i \<in> set (all_ids ?t)" and ne: "res_id res \<noteq> i"
    and rest: "i \<notin> res_id ` set q" by auto
  show ?case
  proof (cases "parse_response res ?t")
    case (Returns u t)
    then have fin: "final_state (parse_response res ?t) = Some t" by simp
    from parse_response_keeps [OF fin i ne] have "i \<in> set (all_ids t)" .
    from Cons.IH [OF _ this rest] Cons.prems(1) Returns show ?thesis by auto
  next
    case (Raises err t)
    then have fin: "final_state (parse_response res ?t) = Some t" by simp
    from parse_response_keeps [OF fin i ne] parse_response_queue [OF fin] Cons.prems(1) Raises
    show ?thesis by auto
  next
    case Diverges
    with Cons.prems show ?thesis by simp
  qed
qed

lemma drain_removes_only:
  "final_state (drain q s) = Some s' \<Longrightarrow> set (all_ids s') \<subseteq> set (all_ids s)"
proof (induction q arbitrary: s)
  case Nil
  then show ?case by auto
next
  case (Cons res q)
  let ?t = "s\<lparr>response_queue := q\<rparr>"
  show ?case
  proof (cases "parse_response res ?t")
    case (Returns u t)
    then have fin: "final_state (parse_response res ?t) = Some t" by simp
    from parse_response_removes_only [OF fin] Cons.IH [of t] Cons.prems Returns
    show ?thesis by auto
  next
    case (Raises err t)
    then have fin: "final_state (parse_response res ?t) = Some t" by simp
    from parse_response_removes_only [OF fin] Cons.prems Raises show ?thesis by auto
  next
    case Diverges
    with Cons.prems show ?thesis by simp
  qed
qed

lemma get_response_unanswered:
  assumes "final_state (get_response c s) = Some s'" "unanswered i s"
  shows "unanswered i s'"
proof (cases "c \<in> set COMMANDS")
  case False
  with assms show ?thesis by (auto simp: get_response_def killed_def unanswered_def)
next
  case True
  from assms(2) have i: "i \<in> set (all_ids s)" and q: "i \<notin> res_id ` set (response_queue s)"
    by (simp_all add: unanswered_def)
  show ?thesis
  proof (cases "drain (response_queue s) s")
    case (Returns u t)
    then have "final_state (drain (response_queue s) s) = Some t" by simp
    from drain_keeps [OF this i q] have t: "i \<in> set (all_ids t)"
      "set (response_queue t) \<subseteq> set (response_queue s)" by simp_all
    with q have "unanswered i t" unfolding unanswered_def by blast
    with assms(1) True Returns show ?thesis
      by (auto simp: get_response_def check_responses_def unanswered_def split: option.splits)
  next
    case (Raises err t)
    then have "final_state (drain (response_queue s) s) = Some t" by simp
    from drain_keeps [OF this i q] have t: "i \<in> set (all_ids t)"
      "set (response_queue t) \<subseteq> set (response_queue s)" by simp_all
    with q have "unanswered i t" unfolding unanswered_def by blast
    with assms(1) True Raises show ?thesis
      by (auto simp: get_response_def check_responses_def)
  next
    case Diverges
    with assms(1) True show ?thesis by (auto simp: get_response_def check_responses_def)
  qed
qed

lemma perform_unanswered:
  assumes "perform ev s = Some s'" "unanswered i s" "\<not> answers_id i ev"
  shows "unanswered i s'"
proof (cases ev)
  case DoPing
  with assms show ?thesis by (auto simp: ping_def elim: create_message_unanswered)
next
  case (DoRequest c f ks w l r)
  with assms show ?thesis
    by (auto simp: request_def split: if_splits elim: create_message_unanswered)
       (simp_all add: killed_def unanswered_def)
next
  case (DoCancel c)
  with assms show ?thesis
    by (auto simp: cancel_request_def killed_def unanswered_def split: if_splits)
next
  case (DoGet c)
  with assms show ?thesis by (auto elim: get_response_unanswered)
next
  case (DoUpdate f d)
  with assms have "final_state (update_file f d s) = Some s'" by simp
  from update_file_frame [OF this] assms(2) unanswered_fields [of s s' i] show ?thesis by simp
next
  case (DoRemove f)
  with assms show ?thesis
    by (auto simp: remove_file_def split: if_splits elim: create_message_unanswered)
       (simp_all add: killed_def unanswered_def)
next
  case DoKill
  with assms show ?thesis by (auto simp: kill_IPC_def killed_def unanswered_def)
next
  case DoCheckServer
  with assms have "final_state (check_server s) = Some s'" by simp
  from check_server_frame [OF this] assms(2) unanswered_fields [of s s' i] show ?thesis by simp
next
  case (WorkerPuts res)
  with assms show ?thesis by (auto simp: unanswered_def)
next
  case WorkerExits
  with assms show ?thesis by (auto simp: killed_def unanswered_def)
qed

lemma run_unanswered:
  "run evs s = Some s' \<Longrightarrow> unanswered i s \<Longrightarrow> \<forall>ev \<in> set evs. \<not> answers_id i ev
   \<Longrightarrow> unanswered i s'"
proof (induction evs arbitrary: s)
  case Nil
  then show ?case by simp
next
  case (Cons ev evs)
  from Cons.prems(1) obtain t where t: "perform ev s = Some t" and rest: "run evs t = Some s'"
    by (auto split: option.splits)
  from perform_unanswered [OF t Cons.prems(2)] Cons.prems(3) have "unanswered i t" by simp
  from Cons.IH [OF rest this] Cons.prems(3) show ?case by simp
qed

lemma perform_removes_only_by_get:
  assumes "perform ev s = Some s'" "i \<in> set (all_ids s)" "i \<notin> set (all_ids s')"
  shows "(\<exists>c. ev = DoGet c) \<and> i \<in> res_id ` set (response_queue s)"
proof (cases ev)
  case DoPing
  with assms have "final_state (create_message ''ping'' no_kwargs s) = Some s'"
    by (simp add: ping_def)
  from create_message_frame [OF this] assms(2,3) show ?thesis by auto
next
  case (DoRequest c f ks w l r)
  show ?thesis
  proof (cases "c \<in> set COMMANDS \<and> f \<in> set (map fst (files s))")
    case True
    with assms(1) DoRequest obtain kw where
      "final_state (create_message ''request'' kw s) = Some s'"
      by (auto simp: request_def)
    from create_message_frame [OF this] assms(2,3) show ?thesis by auto
  next
    case False
    with assms DoRequest show ?thesis by (auto simp: request_def killed_def split: if_splits)
  qed
next
  case (DoCancel c)
  with assms show ?thesis by (auto simp: cancel_request_def killed_def split: if_splits)
next
  case (DoGet c)
  have "i \<in> res_id ` set (response_queue s)"
  proof (rule ccontr)
    assume "i \<notin> res_id ` set (response_queue s)"
    with assms(2) have "unanswered i s" by (simp add: unanswered_def)
    from get_response_unanswered [OF _ this, of c s'] assms(1,3) DoGet show False
      by (simp add: unanswered_def)
  qed
  with DoGet show ?thesis by simp
next
  case (DoUpdate f d)
  with assms have "final_state (update_file f d s) = Some s'" by simp
  from update_file_frame [OF this] assms(2,3) show ?thesis by auto
next
  case (DoRemove f)
  show ?thesis
  proof (cases "f \<in> set (map fst (files s))")
    case True
    with assms(1) DoRemove obtain kw where
      "final_state (create_message ''notification'' kw s) = Some s'"
      by (auto simp: remove_file_def)
    from create_message_frame [OF this] assms(2,3) show ?thesis by auto
  next
    case False
    with assms DoRemove show ?thesis by (auto simp: remove_file_def killed_def)
  qed
next
  case DoKill
  with assms show ?thesis by (auto simp: kill_IPC_def killed_def)
next
  case DoCheckServer
  with assms have "final_state (check_server s) = Some s'" by simp
  from check_server_frame [OF this] assms(2,3) show ?thesis by auto
next
  case (WorkerPuts res)
  with assms show ?thesis by auto
next
  case WorkerExits
  with assms show ?thesis by (auto simp: killed_def)
qed

lemma ping_sends:
  assumes "ping s = Returns u s'"
  shows "\<exists>i. i \<notin> set (all_ids s) \<and> all_ids s' = all_ids s @ [i]
     \<and> requests_queue s' = requests_queue s @ [Ping i]"
  using create_message_sent [of "''ping''" no_kwargs s u s'] assms by (auto simp: ping_def)

lemma update_file_sends:
  assumes "update_file f d s = Returns u s'"
  shows "\<exists>i. i \<notin> set (all_ids s) \<and> all_ids s' = all_ids s @ [i]
     \<and> requests_queue s' = requests_queue s @ [Notification i False f d]"
  using create_message_sent [of "''notification''"
      "no_kwargs\<lparr>kw_filename := Some f, kw_contents := Some d\<rparr>"
      "s\<lparr>files := AList.update f d (files s)\<rparr>" u s'] assms
  by (auto simp: update_file_def no_kwargs_def)

lemma remove_file_sends:
  assumes "remove_file f s = Returns u s'"
  shows "\<exists>i. i \<notin> set (all_ids s) \<and> all_ids s' = all_ids s @ [i]
     \<and> requests_queue s' = requests_queue s @ [Notification i True f []]"
  using create_message_sent [of "''notification''"
      "no_kwargs\<lparr>kw_remove := Some True, kw_filename := Some f\<rparr>" s u s'] assms
  by (auto simp: remove_file_def no_kwargs_def split: if_splits)

lemma request_sends:
  assumes "request c f ks w l r s = Returns u s'"
  shows "\<exists>i. i \<notin> set (all_ids s) \<and> all_ids s' = all_ids s @ [i]
     \<and> requests_queue s' = requests_queue s @ [Request i c f ks w l r]
     \<and> current_ids s' = (current_ids s)(c \<mapsto> i)"
  using create_message_sent [of "''request''"
      "no_kwargs\<lparr>kw_command := Some c, kw_file := Some f, kw_expected_keywords := Some ks,
         kw_current_word := Some w, kw_language := Some l, kw_text_range := Some r\<rparr>" s u s'] assms
  by (auto simp: request_def no_kwargs_def split: if_splits)

text \<open>
  C10: each of \<open>ping\<close>, \<open>update_file\<close>, \<open>remove_file\<close> and \<open>request\<close>, when it returns,
  has appended one identifier that was not outstanding to \<open>all_ids\<close> and has sent the
  message that carries it, a ping or a notification as much as a request. An outstanding
  identifier that no queued response bears stays so through every event other than the
  worker putting a response with that identifier, hence through every history without
  such an event; and an event after which an outstanding identifier is gone is a call of
  \<open>get_response\<close> with a response bearing the identifier on the inbound queue.
\<close>

theorem every_message_keeps_an_identifier:
  "(\<forall>u s'. ping s = Returns u s'
      \<longrightarrow> (\<exists>i. i \<notin> set (all_ids s) \<and> all_ids s' = all_ids s @ [i]
            \<and> requests_queue s' = requests_queue s @ [Ping i]))
   \<and> (\<forall>f d u s'. update_file f d s = Returns u s'
      \<longrightarrow> (\<exists>i. i \<notin> set (all_ids s) \<and> all_ids s' = all_ids s @ [i]
            \<and> requests_queue s' = requests_queue s @ [Notification i False f d]))
   \<and> (\<forall>f u s'. remove_file f s = Returns u s'
      \<longrightarrow> (\<exists>i. i \<notin> set (all_ids s) \<and> all_ids s' = all_ids s @ [i]
            \<and> requests_queue s' = requests_queue s @ [Notification i True f []]))
   \<and> (\<forall>c f ks w l r u s'. request c f ks w l r s = Returns u s'
      \<longrightarrow> (\<exists>i. i \<notin> set (all_ids s) \<and> all_ids s' = all_ids s @ [i]
            \<and> requests_queue s' = requests_queue s @ [Request i c f ks w l r]))
   \<and> (\<forall>i ev s'. unanswered i s \<and> perform ev s = Some s' \<and> \<not> answers_id i ev
      \<longrightarrow> unanswered i s')
   \<and> (\<forall>i evs s'. unanswered i s \<and> run evs s = Some s' \<and> (\<forall>ev \<in> set evs. \<not> answers_id i ev)
      \<longrightarrow> unanswered i s')
   \<and> (\<forall>i ev s'. i \<in> set (all_ids s) \<and> perform ev s = Some s' \<and> i \<notin> set (all_ids s')
      \<longrightarrow> (\<exists>c. ev = DoGet c) \<and> i \<in> res_id ` set (response_queue s))"
proof (intro conjI)
  show "\<forall>u s'. ping s = Returns u s'
      \<longrightarrow> (\<exists>i. i \<notin> set (all_ids s) \<and> all_ids s' = all_ids s @ [i]
            \<and> requests_queue s' = requests_queue s @ [Ping i])"
    using ping_sends by blast
  show "\<forall>f d u s'. update_file f d s = Returns u s'
      \<longrightarrow> (\<exists>i. i \<notin> set (all_ids s) \<and> all_ids s' = all_ids s @ [i]
            \<and> requests_queue s' = requests_queue s @ [Notification i False f d])"
    using update_file_sends by blast
  show "\<forall>f u s'. remove_file f s = Returns u s'
      \<longrightarrow> (\<exists>i. i \<notin> set (all_ids s) \<and> all_ids s' = all_ids s @ [i]
            \<and> requests_queue s' = requests_queue s @ [Notification i True f []])"
    using remove_file_sends by blast
  show "\<forall>c f ks w l r u s'. request c f ks w l r s = Returns u s'
      \<longrightarrow> (\<exists>i. i \<notin> set (all_ids s) \<and> all_ids s' = all_ids s @ [i]
            \<and> requests_queue s' = requests_queue s @ [Request i c f ks w l r])"
    using request_sends by blast
  show "\<forall>i ev s'. unanswered i s \<and> perform ev s = Some s' \<and> \<not> answers_id i ev
      \<longrightarrow> unanswered i s'"
    using perform_unanswered by blast
  show "\<forall>i evs s'. unanswered i s \<and> run evs s = Some s' \<and> (\<forall>ev \<in> set evs. \<not> answers_id i ev)
      \<longrightarrow> unanswered i s'"
    using run_unanswered by blast
  show "\<forall>i ev s'. i \<in> set (all_ids s) \<and> perform ev s = Some s' \<and> i \<notin> set (all_ids s')
      \<longrightarrow> (\<exists>c. ev = DoGet c) \<and> i \<in> res_id ` set (response_queue s)"
    using perform_removes_only_by_get by blast
qed

theorem every_message_keeps_an_identifier_witness:
  "\<exists>s1 s2. ping (new_ipc 15000 (\<lambda>n. n)) = Returns () s1
     \<and> all_ids s1 = [1] \<and> requests_queue s1 = [Ping 1] \<and> unanswered 1 s1
     \<and> run [DoUpdate ''a.txt'' ''x'', DoGet ''highlight''] s1 = Some s2
     \<and> unanswered 1 s2"
proof -
  let ?s = "new_ipc 15000 (\<lambda>n. n)"
  have "\<exists>s1. ping ?s = Returns () s1 \<and> all_ids s1 = [1] \<and> response_queue s1 = []
      \<and> id_max s1 = 15000 \<and> entropy s1 = (\<lambda>n. Suc n)
      \<and> newest_responses s1 = newest_responses ?s"
    by (simp add: ping_def create_message_def new_ipc_def randint_def redraw.simps
        send_message_def)
  then obtain s1 where p: "ping ?s = Returns () s1" and ids: "all_ids s1 = [1]"
    and q: "response_queue s1 = []" and hi: "id_max s1 = 15000"
    and e: "entropy s1 = (\<lambda>n. Suc n)" and slot: "newest_responses s1 = newest_responses ?s"
    by blast
  from every_message_keeps_an_identifier [of ?s, THEN conjunct1, rule_format, OF p]
  have sent: "\<exists>i. i \<notin> set (all_ids ?s) \<and> all_ids s1 = all_ids ?s @ [i]
      \<and> requests_queue s1 = requests_queue ?s @ [Ping i]" .
  with ids have msg: "requests_queue s1 = [Ping 1]" by (auto simp: new_ipc_def)
  from ids q have un: "unanswered 1 s1" by (simp add: unanswered_def)
  have "\<exists>t. update_file ''a.txt'' ''x'' s1 = Returns () t \<and> response_queue t = []
      \<and> newest_responses t = newest_responses s1"
    by (simp add: update_file_def create_message_def randint_def redraw.simps
        send_message_def hi e ids q)
  then obtain t where u: "update_file ''a.txt'' ''x'' s1 = Returns () t"
    and qt: "response_queue t = []" and st: "newest_responses t = newest_responses s1" by blast
  have "\<exists>v s2. get_response ''highlight'' t = Returns v s2"
    by (simp add: get_response_def check_responses_def qt st slot new_ipc_def COMMANDS_def)
  then obtain v s2 where g: "get_response ''highlight'' t = Returns v s2" by blast
  have r1: "perform (DoUpdate ''a.txt'' ''x'') s1 = Some t"
    unfolding perform.simps u by simp
  have r2: "perform (DoGet ''highlight'') t = Some s2"
    unfolding perform.simps g by simp
  have r: "run [DoUpdate ''a.txt'' ''x'', DoGet ''highlight''] s1 = Some s2"
    unfolding run.simps r1 r2 option.case by (rule refl)
  have "unanswered 1 s2"
    by (rule every_message_keeps_an_identifier [of s1, THEN conjunct2, THEN conjunct2,
          THEN conjunct2, THEN conjunct2, THEN conjunct2, THEN conjunct1, rule_format,
          of 1 "[DoUpdate ''a.txt'' ''x'', DoGet ''highlight'']" s2])
       (intro conjI un r, simp)
  with p ids msg un r show ?thesis by blast
qed

section \<open>Responses that make the drain raise\<close>

lemma parse_response_unknown_id:
  "res_id res \<notin> set (all_ids s) \<Longrightarrow> parse_response res s = Raises ValueError s"
  by (simp add: parse_response_def)

lemma parse_response_unknown_command:
  assumes "res_id res \<in> set (all_ids s)" "res_command res = Some c" "current_ids s c = None"
  shows "parse_response res s
     = Raises (KeyError c) (s\<lparr>all_ids := remove1 (res_id res) (all_ids s)\<rparr>)"
  using assms by (simp add: parse_response_def)

lemma parse_response_Raises:
  assumes "parse_response res s = Raises err s'"
  shows "err = ValueError \<and> res_id res \<notin> set (all_ids s)
     \<or> (\<exists>c. err = KeyError c \<and> res_command res = Some c \<and> current_ids s c = None)"
  using assms by (auto simp: parse_response_def Let_def split: if_splits option.splits)

lemma parse_response_Returns:
  assumes "parse_response res s = Returns u s'"
  shows "res_id res \<in> set (all_ids s)
     \<and> (case res_command res of None \<Rightarrow> True | Some c \<Rightarrow> c \<in> dom (current_ids s))
     \<and> all_ids s' = remove1 (res_id res) (all_ids s)
     \<and> dom (current_ids s') = dom (current_ids s)"
  using assms by (auto simp: parse_response_def Let_def split: if_splits option.splits)

lemma drain_Raises:
  "drain q s = Raises err s' \<Longrightarrow> err = ValueError \<or> (\<exists>c. err = KeyError c)"
proof (induction q arbitrary: s)
  case Nil
  then show ?case by simp
next
  case (Cons res q)
  then show ?case
    by (auto split: outcome.splits dest: parse_response_Raises)
qed

text \<open>
  If the drain returns, every response was answerable in turn: the identifiers of the
  queue are pairwise distinct and outstanding, and the command tags are keys of
  \<open>current_ids\<close>.
\<close>

lemma drain_Returns:
  "drain q s = Returns u s' \<Longrightarrow> distinct (all_ids s) \<Longrightarrow>
   distinct (map res_id q) \<and> res_id ` set q \<subseteq> set (all_ids s)
   \<and> (\<forall>res \<in> set q. \<forall>c. res_command res = Some c \<longrightarrow> c \<in> dom (current_ids s))"
proof (induction q arbitrary: s)
  case Nil
  then show ?case by simp
next
  case (Cons res q)
  let ?t = "s\<lparr>response_queue := q\<rparr>"
  from Cons.prems(1) obtain t where
    first: "parse_response res ?t = Returns () t" and rest: "drain q t = Returns u s'"
    by (auto split: outcome.splits)
  from parse_response_Returns [OF first] have
    mem: "res_id res \<in> set (all_ids s)"
    and tag: "case res_command res of None \<Rightarrow> True | Some c \<Rightarrow> c \<in> dom (current_ids s)"
    and ids: "all_ids t = remove1 (res_id res) (all_ids s)"
    and keys: "dom (current_ids t) = dom (current_ids s)"
    by (simp_all split: option.splits)
  from ids Cons.prems(2) have dt: "distinct (all_ids t)" by simp
  from Cons.IH [OF rest dt] have
    ih: "distinct (map res_id q)" "res_id ` set q \<subseteq> set (all_ids t)"
      "\<forall>r \<in> set q. \<forall>c. res_command r = Some c \<longrightarrow> c \<in> dom (current_ids t)"
    by simp_all
  from ih(2) ids Cons.prems(2) have notin: "res_id res \<notin> res_id ` set q"
    by auto
  from ih(2) ids have sub: "res_id ` set q \<subseteq> set (all_ids s)"
    using set_remove1_subset [of "res_id res" "all_ids s"] by auto
  from tag have tag': "\<forall>c. res_command res = Some c \<longrightarrow> c \<in> dom (current_ids s)"
    by (auto split: option.splits)
  from notin ih(1) have "distinct (map res_id (res # q))" by simp
  moreover from mem sub have "res_id ` set (res # q) \<subseteq> set (all_ids s)" by simp
  moreover from tag' ih(3) keys
  have "\<forall>r \<in> set (res # q). \<forall>c. res_command r = Some c \<longrightarrow> c \<in> dom (current_ids s)"
    by simp
  ultimately show ?case by blast
qed

lemma get_response_raises:
  assumes "c \<in> set COMMANDS" "tables_ok s" "distinct (all_ids s)"
    and bad: "\<not> distinct (map res_id (response_queue s))
       \<or> \<not> res_id ` set (response_queue s) \<subseteq> set (all_ids s)
       \<or> (\<exists>res \<in> set (response_queue s). \<exists>c'. res_command res = Some c' \<and> c' \<notin> set COMMANDS)"
  shows "\<exists>err s'. get_response c s = Raises err s' \<and> (err = ValueError \<or> (\<exists>c'. err = KeyError c'))"
proof (cases "drain (response_queue s) s")
  case (Returns u t)
  from drain_Returns [OF Returns assms(3)] assms(2) bad have False
    unfolding tables_ok_def by blast
  then show ?thesis ..
next
  case (Raises err t)
  from drain_Raises [OF Raises] Raises assms(1) show ?thesis
    by (simp add: get_response_def check_responses_def)
next
  case Diverges
  with drain_never_diverges show ?thesis by blast
qed

text \<open>
  C9: in a state that a history of the object reaches, \<open>parse_response\<close> raises
  \<open>ValueError\<close>, changing nothing, on a response whose identifier is not outstanding, and
  raises \<open>KeyError\<close>, after removing the identifier, on a response whose identifier is
  outstanding and whose command tag is not one of the commands. \<open>get_response\<close> for a
  command raises one of the two whenever the inbound queue holds two responses with the
  same identifier, a response with an identifier that is not outstanding, or a response
  with a command tag that is not one of the commands.
\<close>

theorem observing_can_raise:
  assumes "reachable s"
  shows "(res_id res \<notin> set (all_ids s) \<longrightarrow> parse_response res s = Raises ValueError s)
     \<and> (\<forall>c. res_id res \<in> set (all_ids s) \<and> res_command res = Some c \<and> c \<notin> set COMMANDS
          \<longrightarrow> parse_response res s
              = Raises (KeyError c) (s\<lparr>all_ids := remove1 (res_id res) (all_ids s)\<rparr>))
     \<and> (\<forall>c. c \<in> set COMMANDS
            \<and> (\<not> distinct (map res_id (response_queue s))
               \<or> \<not> res_id ` set (response_queue s) \<subseteq> set (all_ids s)
               \<or> (\<exists>r \<in> set (response_queue s). \<exists>c'. res_command r = Some c' \<and> c' \<notin> set COMMANDS))
          \<longrightarrow> (\<exists>err s'. get_response c s = Raises err s'
                \<and> (err = ValueError \<or> (\<exists>c'. err = KeyError c'))))"
proof (intro conjI allI impI)
  assume "res_id res \<notin> set (all_ids s)"
  then show "parse_response res s = Raises ValueError s"
    by (rule parse_response_unknown_id)
next
  fix c
  assume a: "res_id res \<in> set (all_ids s) \<and> res_command res = Some c \<and> c \<notin> set COMMANDS"
  from reachable_tables_ok [OF assms] a have "current_ids s c = None"
    by (simp add: tables_ok_missing)
  with a show "parse_response res s
      = Raises (KeyError c) (s\<lparr>all_ids := remove1 (res_id res) (all_ids s)\<rparr>)"
    by (simp add: parse_response_unknown_command)
next
  fix c
  assume a: "c \<in> set COMMANDS
      \<and> (\<not> distinct (map res_id (response_queue s))
         \<or> \<not> res_id ` set (response_queue s) \<subseteq> set (all_ids s)
         \<or> (\<exists>r \<in> set (response_queue s). \<exists>c'. res_command r = Some c' \<and> c' \<notin> set COMMANDS))"
  from reachable_ids_ok [OF assms] have "distinct (all_ids s)" by (simp add: ids_ok_def)
  with get_response_raises [OF _ reachable_tables_ok [OF assms]] a
  show "\<exists>err s'. get_response c s = Raises err s'
      \<and> (err = ValueError \<or> (\<exists>c'. err = KeyError c'))"
    by blast
qed

theorem observing_can_raise_witness:
  "reachable ((new_ipc 15000 (\<lambda>n. n))
       \<lparr>response_queue := [\<lparr>res_id = 5, res_command = None, res_result = []\<rparr>]\<rparr>)
   \<and> parse_response \<lparr>res_id = 5, res_command = None, res_result = []\<rparr>
        ((new_ipc 15000 (\<lambda>n. n))
           \<lparr>response_queue := [\<lparr>res_id = 5, res_command = None, res_result = []\<rparr>]\<rparr>)
      = Raises ValueError ((new_ipc 15000 (\<lambda>n. n))
           \<lparr>response_queue := [\<lparr>res_id = 5, res_command = None, res_result = []\<rparr>]\<rparr>)
   \<and> (\<exists>err s'. get_response ''autocomplete'' ((new_ipc 15000 (\<lambda>n. n))
           \<lparr>response_queue := [\<lparr>res_id = 5, res_command = None, res_result = []\<rparr>]\<rparr>)
        = Raises err s' \<and> (err = ValueError \<or> (\<exists>c'. err = KeyError c')))"
proof -
  let ?r = "\<lparr>res_id = 5, res_command = None, res_result = []\<rparr>"
  let ?init = "new_ipc 15000 (\<lambda>n. n)"
  let ?s = "?init\<lparr>response_queue := [?r]\<rparr>"
  have "perform (WorkerPuts ?r) ?init = Some ?s" by (simp add: new_ipc_def)
  from reachable.step [OF reachable.init [OF IPC_returns] this] have r: "reachable ?s" .
  have a: "res_id ?r \<notin> set (all_ids ?s)" by (simp add: new_ipc_def)
  have b: "''autocomplete'' \<in> set COMMANDS
      \<and> (\<not> distinct (map res_id (response_queue ?s))
         \<or> \<not> res_id ` set (response_queue ?s) \<subseteq> set (all_ids ?s)
         \<or> (\<exists>r \<in> set (response_queue ?s). \<exists>c'. res_command r = Some c' \<and> c' \<notin> set COMMANDS))"
    by (simp add: new_ipc_def COMMANDS_def)
  from observing_can_raise [OF r, of ?r, THEN conjunct1, rule_format, OF a]
    observing_can_raise [OF r, of ?r, THEN conjunct2, THEN conjunct2, rule_format, OF b] r
  show ?thesis by blast
qed

section \<open>Requests\<close>

lemma request_invalid_command:
  "c \<notin> set COMMANDS \<Longrightarrow>
   request c f ks w l r s = Raises (InvalidCommand c) (s\<lparr>server_alive := False\<rparr>)"
  by (simp add: request_def killed_def)

lemma request_unknown_file:
  "c \<in> set COMMANDS \<Longrightarrow> f \<notin> set (map fst (files s)) \<Longrightarrow>
   request c f ks w l r s = Raises (UnknownFile f) (s\<lparr>server_alive := False\<rparr>)"
  by (simp add: request_def killed_def)

lemma request_valid:
  "c \<in> set COMMANDS \<Longrightarrow> f \<in> set (map fst (files s)) \<Longrightarrow>
   request c f ks w l r s = create_message ''request''
     (no_kwargs\<lparr>kw_command := Some c, kw_file := Some f, kw_expected_keywords := Some ks,
        kw_current_word := Some w, kw_language := Some l, kw_text_range := Some r\<rparr>) s"
  by (simp add: request_def)

lemma request_Raises:
  assumes "request c f ks w l r s = Raises err s'"
  shows "c \<notin> set COMMANDS \<and> err = InvalidCommand c
     \<or> c \<in> set COMMANDS \<and> f \<notin> set (map fst (files s)) \<and> err = UnknownFile f
     \<or> c \<in> set COMMANDS \<and> f \<in> set (map fst (files s)) \<and> err = ValueError \<and> id_max s < 1"
proof (cases "c \<in> set COMMANDS")
  case False
  with assms request_invalid_command [OF False, of f ks w l r s] show ?thesis by simp
next
  case True
  show ?thesis
  proof (cases "f \<in> set (map fst (files s))")
    case False
    with assms True request_unknown_file [OF True False, of ks w l r] show ?thesis by simp
  next
    case f: True
    from assms request_valid [OF True f, of ks w l r] create_message_Raises True f
    show ?thesis by metis
  qed
qed

lemma request_Returns:
  assumes "request c f ks w l r s = Returns u s'"
  shows "c \<in> set COMMANDS \<and> f \<in> set (map fst (files s))"
  using assms by (auto simp: request_def split: if_splits)

lemma request_frame:
  assumes "request c f ks w l r s = Returns u s'"
  shows "server_alive s' = server_alive s \<and> servers_started s' = servers_started s
     \<and> files s' = files s \<and> newest_responses s' = newest_responses s"
proof -
  let ?kw = "no_kwargs\<lparr>kw_command := Some c, kw_file := Some f, kw_expected_keywords := Some ks,
        kw_current_word := Some w, kw_language := Some l, kw_text_range := Some r\<rparr>"
  from request_Returns [OF assms] have "c \<in> set COMMANDS" "f \<in> set (map fst (files s))"
    by simp_all
  from request_valid [OF this, of ks w l r]
  have "create_message ''request'' ?kw s = request c f ks w l r s" by (rule sym)
  also note assms
  finally have "final_state (create_message ''request'' ?kw s) = Some s'" by simp
  from create_message_frame [OF this] show ?thesis by simp
qed

text \<open>
  C6: \<open>request\<close> raises the error for an invalid command exactly when the command is
  not in \<open>COMMANDS\<close>, and the error for an unknown file exactly when the command is in
  \<open>COMMANDS\<close> and the file is not a key of \<open>files\<close>. In both cases the state in which
  the error is raised is the state of the call with the worker killed: no message was
  sent. When \<open>request\<close> returns, the command and the file were valid, exactly one message
  was appended to the outbound queue, it is the request with the given arguments, and the
  worker is as alive as before. With a valid command and file and a non-empty identifier
  range nothing is raised, and the call returns as soon as the random source produces a
  free identifier.
\<close>

theorem request_errors:
  "((\<exists>x s'. request c f ks w l r s = Raises (InvalidCommand x) s') \<longleftrightarrow> c \<notin> set COMMANDS)
   \<and> ((\<exists>x s'. request c f ks w l r s = Raises (UnknownFile x) s')
        \<longleftrightarrow> c \<in> set COMMANDS \<and> f \<notin> set (map fst (files s)))
   \<and> (c \<notin> set COMMANDS
        \<longrightarrow> request c f ks w l r s = Raises (InvalidCommand c) (s\<lparr>server_alive := False\<rparr>))
   \<and> (c \<in> set COMMANDS \<and> f \<notin> set (map fst (files s))
        \<longrightarrow> request c f ks w l r s = Raises (UnknownFile f) (s\<lparr>server_alive := False\<rparr>))
   \<and> (\<forall>u s'. request c f ks w l r s = Returns u s'
        \<longrightarrow> c \<in> set COMMANDS \<and> f \<in> set (map fst (files s))
          \<and> (\<exists>i. requests_queue s' = requests_queue s @ [Request i c f ks w l r])
          \<and> server_alive s' = server_alive s)
   \<and> (c \<in> set COMMANDS \<and> f \<in> set (map fst (files s)) \<and> 1 \<le> id_max s
        \<longrightarrow> (\<forall>err s'. request c f ks w l r s \<noteq> Raises err s')
          \<and> ((\<exists>n. randint 1 (id_max s) (entropy s n) \<notin> set (all_ids s))
               \<longrightarrow> (\<exists>s'. request c f ks w l r s = Returns () s')))"
proof (intro conjI)
  show "(\<exists>x s'. request c f ks w l r s = Raises (InvalidCommand x) s') \<longleftrightarrow> c \<notin> set COMMANDS"
    using request_Raises [of c f ks w l r s] request_invalid_command [of c f ks w l r s]
    by (metis error.distinct(1) error.distinct(3))
  show "(\<exists>x s'. request c f ks w l r s = Raises (UnknownFile x) s')
      \<longleftrightarrow> c \<in> set COMMANDS \<and> f \<notin> set (map fst (files s))"
    using request_Raises [of c f ks w l r s] request_unknown_file [of c f s ks w l r]
    by (metis error.distinct(1) error.distinct(7))
  show "c \<notin> set COMMANDS
      \<longrightarrow> request c f ks w l r s = Raises (InvalidCommand c) (s\<lparr>server_alive := False\<rparr>)"
    using request_invalid_command by blast
  show "c \<in> set COMMANDS \<and> f \<notin> set (map fst (files s))
      \<longrightarrow> request c f ks w l r s = Raises (UnknownFile f) (s\<lparr>server_alive := False\<rparr>)"
    using request_unknown_file by blast
  show "\<forall>u s'. request c f ks w l r s = Returns u s'
      \<longrightarrow> c \<in> set COMMANDS \<and> f \<in> set (map fst (files s))
        \<and> (\<exists>i. requests_queue s' = requests_queue s @ [Request i c f ks w l r])
        \<and> server_alive s' = server_alive s"
  proof (intro allI impI)
    fix u s'
    assume a: "request c f ks w l r s = Returns u s'"
    from request_Returns [OF a] request_sends [OF a] request_frame [OF a]
    show "c \<in> set COMMANDS \<and> f \<in> set (map fst (files s))
        \<and> (\<exists>i. requests_queue s' = requests_queue s @ [Request i c f ks w l r])
        \<and> server_alive s' = server_alive s"
      by blast
  qed
  show "c \<in> set COMMANDS \<and> f \<in> set (map fst (files s)) \<and> 1 \<le> id_max s
      \<longrightarrow> (\<forall>err s'. request c f ks w l r s \<noteq> Raises err s')
        \<and> ((\<exists>n. randint 1 (id_max s) (entropy s n) \<notin> set (all_ids s))
             \<longrightarrow> (\<exists>s'. request c f ks w l r s = Returns () s'))"
  proof (intro impI conjI allI)
    fix err s'
    assume a: "c \<in> set COMMANDS \<and> f \<in> set (map fst (files s)) \<and> 1 \<le> id_max s"
    with request_Raises [of c f ks w l r s err s']
    show "request c f ks w l r s \<noteq> Raises err s'" by auto
  next
    assume a: "c \<in> set COMMANDS \<and> f \<in> set (map fst (files s)) \<and> 1 \<le> id_max s"
      and "\<exists>n. randint 1 (id_max s) (entropy s n) \<notin> set (all_ids s)"
    then obtain n where "randint 1 (id_max s) (entropy s n) \<notin> set (all_ids s)" by blast
    from create_message_total [OF _ this] a request_valid [of c f s ks w l r]
    show "\<exists>s'. request c f ks w l r s = Returns () s'" by simp
  qed
qed

theorem request_errors_witness:
  "request ''bogus'' ''a.py'' [] [] ''Text'' (1, -1)
       ((new_ipc 15000 (\<lambda>n. n))\<lparr>files := [(''a.py'', ''x'')]\<rparr>)
     = Raises (InvalidCommand ''bogus'')
        ((new_ipc 15000 (\<lambda>n. n))\<lparr>files := [(''a.py'', ''x'')], server_alive := False\<rparr>)
   \<and> request ''highlight'' ''b.py'' [] [] ''Text'' (1, -1)
       ((new_ipc 15000 (\<lambda>n. n))\<lparr>files := [(''a.py'', ''x'')]\<rparr>)
     = Raises (UnknownFile ''b.py'')
        ((new_ipc 15000 (\<lambda>n. n))\<lparr>files := [(''a.py'', ''x'')], server_alive := False\<rparr>)
   \<and> (\<exists>s'. request ''highlight'' ''a.py'' [] [] ''Text'' (1, -1)
       ((new_ipc 15000 (\<lambda>n. n))\<lparr>files := [(''a.py'', ''x'')]\<rparr>) = Returns () s')"
proof -
  let ?s = "(new_ipc 15000 (\<lambda>n. n))\<lparr>files := [(''a.py'', ''x'')]\<rparr>"
  have a: "''bogus'' \<notin> set COMMANDS" by (simp add: COMMANDS_def)
  have b: "''highlight'' \<in> set COMMANDS \<and> ''b.py'' \<notin> set (map fst (files ?s))"
    by (simp add: COMMANDS_def)
  have c: "''highlight'' \<in> set COMMANDS \<and> ''a.py'' \<in> set (map fst (files ?s))
      \<and> 1 \<le> id_max ?s"
    by (simp add: COMMANDS_def new_ipc_def)
  have d: "\<exists>n. randint 1 (id_max ?s) (entropy ?s n) \<notin> set (all_ids ?s)"
    by (simp add: new_ipc_def)
  note t = request_errors [of _ _ "[]" "[]" "''Text''" "(1, -1)" ?s]
  from t [of "''bogus''" "''a.py''", THEN conjunct2, THEN conjunct2, THEN conjunct1,
      rule_format, OF a]
    t [of "''highlight''" "''b.py''", THEN conjunct2, THEN conjunct2, THEN conjunct2,
      THEN conjunct1, rule_format, OF b]
    t [of "''highlight''" "''a.py''", THEN conjunct2, THEN conjunct2, THEN conjunct2,
      THEN conjunct2, THEN conjunct2, rule_format, OF c, THEN conjunct2, rule_format, OF d]
  show ?thesis by simp
qed

section \<open>A command without a live request\<close>

lemma parse_response_no_live:
  assumes "final_state (parse_response res s) = Some s'" "ids_ok s" "no_live_request c s"
  shows "no_live_request c s' \<and> newest_responses s' c = newest_responses s c"
proof -
  from assms(2) have pos: "0 \<notin> set (all_ids s)" by (auto simp: ids_ok_def)
  from assms(3) have cur: "current_ids s c = Some 0" by (simp add: no_live_request_def)
  show ?thesis
  proof (cases "res_id res \<in> set (all_ids s)")
    case False
    with assms(1) have "s' = s" by (simp add: parse_response_def)
    with assms(3) show ?thesis by simp
  next
    case True
    with pos have nz: "res_id res \<noteq> 0" by auto
    from parse_response_final [OF assms(1)] show ?thesis
    proof (elim disjE exE conjE)
      assume "s' = s"
      with assms(3) show ?thesis by simp
    next
      assume "s' = s\<lparr>all_ids := remove1 (res_id res) (all_ids s)\<rparr>"
      with cur show ?thesis by (simp add: no_live_request_def)
    next
      fix c'
      assume c': "current_ids s c' = Some (res_id res)"
        and eq: "s' = s\<lparr>all_ids := remove1 (res_id res) (all_ids s),
                      current_ids := (current_ids s)(c' \<mapsto> 0),
                      newest_responses := (newest_responses s)(c' \<mapsto> Some res)\<rparr>"
      from c' cur nz have "c' \<noteq> c" by auto
      with eq cur show ?thesis by (simp add: no_live_request_def)
    qed
  qed
qed

lemma drain_no_live:
  "final_state (drain q s) = Some s' \<Longrightarrow> ids_ok s \<Longrightarrow> no_live_request c s
   \<Longrightarrow> no_live_request c s' \<and> newest_responses s' c = newest_responses s c"
proof (induction q arbitrary: s)
  case Nil
  then show ?case by (auto simp: no_live_request_def)
next
  case (Cons res q)
  let ?t = "s\<lparr>response_queue := q\<rparr>"
  have ok: "ids_ok ?t" using Cons.prems(2) by (simp add: ids_ok_def)
  have nl: "no_live_request c ?t" using Cons.prems(3) by (simp add: no_live_request_def)
  show ?case
  proof (cases "parse_response res ?t")
    case (Returns u t)
    then have fin: "final_state (parse_response res ?t) = Some t" by simp
    from parse_response_no_live [OF fin ok nl] have
      t: "no_live_request c t" "newest_responses t c = newest_responses s c" by simp_all
    from parse_response_ids_ok [OF fin ok] have okt: "ids_ok t" .
    from Cons.prems(1) Returns have "final_state (drain q t) = Some s'" by simp
    from Cons.IH [OF this okt t(1)] t(2) show ?thesis by simp
  next
    case (Raises err t)
    then have fin: "final_state (parse_response res ?t) = Some t" by simp
    from parse_response_no_live [OF fin ok nl] Cons.prems(1) Raises show ?thesis by simp
  next
    case Diverges
    with Cons.prems show ?thesis by simp
  qed
qed

text \<open>
  What \<open>get_response\<close> returns is the content of the slot after the drain, and the call
  leaves the slot empty.
\<close>

lemma get_response_Returns:
  assumes "get_response c s = Returns v s'"
  shows "c \<in> set COMMANDS \<and> newest_responses s' c = Some None
     \<and> (\<exists>t. check_responses s = Returns () t \<and> newest_responses t c = Some v
            \<and> s' = t\<lparr>newest_responses := (newest_responses t)(c \<mapsto> None)\<rparr>)"
  using assms
  by (auto simp: get_response_def split: if_splits outcome.splits option.splits)

lemma get_response_final:
  assumes "final_state (get_response c' s) = Some s'" "c' \<in> set COMMANDS"
  shows "\<exists>t. final_state (drain (response_queue s) s) = Some t
     \<and> (s' = t \<or> s' = t\<lparr>newest_responses := (newest_responses t)(c' \<mapsto> None)\<rparr>)"
  using assms
  by (auto simp: get_response_def check_responses_def split: outcome.splits option.splits)

lemma get_response_no_live:
  assumes "final_state (get_response c' s) = Some s'" "ids_ok s" "no_live_request c s"
  shows "no_live_request c s'
     \<and> (newest_responses s' c = newest_responses s c \<or> newest_responses s' c = Some None)"
proof (cases "c' \<in> set COMMANDS")
  case False
  with assms show ?thesis by (auto simp: get_response_def killed_def no_live_request_def)
next
  case True
  from get_response_final [OF assms(1) True] obtain t where
    d: "final_state (drain (response_queue s) s) = Some t"
    and s': "s' = t \<or> s' = t\<lparr>newest_responses := (newest_responses t)(c' \<mapsto> None)\<rparr>"
    by blast
  from drain_no_live [OF d assms(2,3)] have
    t: "no_live_request c t" "newest_responses t c = newest_responses s c" by simp_all
  from s' show ?thesis
  proof
    assume "s' = t"
    with t show ?thesis by simp
  next
    assume "s' = t\<lparr>newest_responses := (newest_responses t)(c' \<mapsto> None)\<rparr>"
    with t show ?thesis by (simp add: no_live_request_def)
  qed
qed

lemma get_response_no_live_value:
  assumes "get_response c s = Returns v s'" "ids_ok s" "no_live_request c s"
  shows "newest_responses s c = Some v"
proof -
  from get_response_Returns [OF assms(1)] obtain t where
    t: "check_responses s = Returns () t" "newest_responses t c = Some v" by blast
  then have "final_state (drain (response_queue s) s) = Some t"
    by (simp add: check_responses_def)
  from drain_no_live [OF this assms(2,3)] t(2) show ?thesis by simp
qed

lemma create_message_no_live:
  assumes "final_state (create_message type kw s) = Some s'" "no_live_request c s"
    and "type = ''request'' \<longrightarrow> kwargs_get (kw_command kw) [] \<noteq> c"
  shows "no_live_request c s' \<and> newest_responses s' c = newest_responses s c"
proof (cases "create_message type kw s")
  case (Returns u t)
  with assms(1) have t: "t = s'" by simp
  from create_message_sent [OF Returns] t obtain i where
    "current_ids s' = (if type = ''request''
        then (current_ids s)(kwargs_get (kw_command kw) [] \<mapsto> i) else current_ids s)"
    by blast
  with assms(2,3) have "no_live_request c s'" by (auto simp: no_live_request_def)
  with create_message_frame [OF assms(1)] show ?thesis by simp
next
  case (Raises err t)
  from create_message_Raises [OF Raises] assms Raises show ?thesis by simp
next
  case Diverges
  with assms show ?thesis by simp
qed

lemma perform_no_live:
  assumes "perform ev s = Some s'" "ids_ok s" "no_live_request c s" "\<not> requests_command c ev"
  shows "no_live_request c s'
     \<and> (newest_responses s' c = newest_responses s c \<or> newest_responses s' c = Some None)"
proof (cases ev)
  case DoPing
  with assms have "final_state (create_message ''ping'' no_kwargs s) = Some s'"
    by (simp add: ping_def)
  from create_message_no_live [OF this assms(3)] show ?thesis by simp
next
  case (DoRequest c' f ks w l r)
  with assms(4) have ne: "c' \<noteq> c" by simp
  show ?thesis
  proof (cases "c' \<in> set COMMANDS \<and> f \<in> set (map fst (files s))")
    case True
    let ?kw = "no_kwargs\<lparr>kw_command := Some c', kw_file := Some f,
        kw_expected_keywords := Some ks, kw_current_word := Some w, kw_language := Some l,
        kw_text_range := Some r\<rparr>"
    from True assms(1) DoRequest have "final_state (create_message ''request'' ?kw s) = Some s'"
      by (simp add: request_def)
    from create_message_no_live [OF this assms(3)] ne show ?thesis by simp
  next
    case False
    with assms DoRequest show ?thesis
      by (auto simp: request_def killed_def no_live_request_def split: if_splits)
  qed
next
  case (DoCancel c')
  with assms show ?thesis
    by (auto simp: cancel_request_def killed_def no_live_request_def split: if_splits)
next
  case (DoGet c')
  with assms get_response_no_live [of c' s s' c] show ?thesis by simp
next
  case (DoUpdate f d)
  with assms have "final_state (update_file f d s) = Some s'" by simp
  from update_file_frame [OF this] assms(3) show ?thesis by (simp add: no_live_request_def)
next
  case (DoRemove f)
  show ?thesis
  proof (cases "f \<in> set (map fst (files s))")
    case True
    let ?kw = "no_kwargs\<lparr>kw_remove := Some True, kw_filename := Some f\<rparr>"
    from True assms(1) DoRemove have
      "final_state (create_message ''notification'' ?kw s) = Some s'"
      by (simp add: remove_file_def)
    from create_message_no_live [OF this assms(3)] show ?thesis by simp
  next
    case False
    with assms DoRemove show ?thesis
      by (auto simp: remove_file_def killed_def no_live_request_def)
  qed
next
  case DoKill
  with assms show ?thesis by (auto simp: kill_IPC_def killed_def no_live_request_def)
next
  case DoCheckServer
  with assms have "final_state (check_server s) = Some s'" by simp
  from check_server_frame [OF this] assms(3) show ?thesis by (simp add: no_live_request_def)
next
  case (WorkerPuts res)
  with assms show ?thesis by (auto simp: no_live_request_def)
next
  case WorkerExits
  with assms show ?thesis by (auto simp: killed_def no_live_request_def)
qed

lemma run_no_live:
  "run evs s = Some s' \<Longrightarrow> ids_ok s \<Longrightarrow> no_live_request c s
   \<Longrightarrow> \<forall>ev \<in> set evs. \<not> requests_command c ev
   \<Longrightarrow> ids_ok s' \<and> no_live_request c s'
     \<and> (newest_responses s' c = newest_responses s c \<or> newest_responses s' c = Some None)"
proof (induction evs arbitrary: s)
  case Nil
  then show ?case by simp
next
  case (Cons ev evs)
  from Cons.prems(1) obtain t where t: "perform ev s = Some t" and rest: "run evs t = Some s'"
    by (auto split: option.splits)
  from Cons.prems(4) have ev: "\<not> requests_command c ev"
    and evs: "\<forall>ev \<in> set evs. \<not> requests_command c ev" by simp_all
  from perform_no_live [OF t Cons.prems(2,3) ev] have
    nl: "no_live_request c t"
    and slot: "newest_responses t c = newest_responses s c \<or> newest_responses t c = Some None"
    by simp_all
  from perform_ids_ok [OF t Cons.prems(2)] have ok: "ids_ok t" .
  from Cons.IH [OF rest ok nl evs] slot show ?case by auto
qed

section \<open>Cancelling a request\<close>

lemma run_reachable: "run evs s = Some s' \<Longrightarrow> reachable s \<Longrightarrow> reachable s'"
  by (induction evs arbitrary: s) (auto split: option.splits intro: reachable.step)

lemma cancel_request_valid:
  "c \<in> set COMMANDS \<Longrightarrow>
   cancel_request c s = Returns () (s\<lparr>current_ids := (current_ids s)(c \<mapsto> 0)\<rparr>)"
  by (simp add: cancel_request_def)

lemma parse_response_superseded:
  assumes "res_id res \<in> set (all_ids s)" "res_command res = Some c"
    and "current_ids s c = Some cur" "cur \<noteq> res_id res"
  shows "parse_response res s = Returns () (s\<lparr>all_ids := remove1 (res_id res) (all_ids s)\<rparr>)"
  using assms by (auto simp: parse_response_def)

text \<open>
  C5: in a state that a history of the object reaches, \<open>cancel_request\<close> for a valid
  command returns and leaves the command's entry in \<open>current_ids\<close> at 0, while every
  outstanding identifier is at least 1. From then on, through every history in which no
  new request for the command is made, the entry stays 0 and the command's slot in
  \<open>newest_responses\<close> either keeps what it held when the request was cancelled or has
  been emptied; a response tagged with the command whose identifier is outstanding is
  processed by removing the identifier and nothing else; no response that
  \<open>parse_response\<close> processes is stored in the command's slot; and \<open>get_response\<close> for
  the command returns what the slot held before the call, never a response it drained.
\<close>

theorem cancel_drops_late_responses:
  assumes "reachable s" "c \<in> set COMMANDS"
  shows "\<exists>s'. cancel_request c s = Returns () s' \<and> current_ids s' c = Some 0
     \<and> 0 \<notin> set (all_ids s') \<and> (\<forall>i \<in> set (all_ids s'). 1 \<le> i \<and> i \<le> id_max s')
     \<and> (\<forall>evs t. run evs s' = Some t \<and> (\<forall>ev \<in> set evs. \<not> requests_command c ev)
          \<longrightarrow> current_ids t c = Some 0
            \<and> (newest_responses t c = newest_responses s c \<or> newest_responses t c = Some None)
            \<and> (\<forall>res. res_id res \<in> set (all_ids t) \<and> res_command res = Some c
                 \<longrightarrow> parse_response res t
                     = Returns () (t\<lparr>all_ids := remove1 (res_id res) (all_ids t)\<rparr>)
                   \<and> res_id res \<notin> set (remove1 (res_id res) (all_ids t)))
            \<and> (\<forall>res u t'. parse_response res t = Returns u t'
                 \<longrightarrow> res_id res \<notin> set (all_ids t') \<and> current_ids t' c = Some 0
                   \<and> newest_responses t' c = newest_responses t c)
            \<and> (\<forall>v t'. get_response c t = Returns v t' \<longrightarrow> newest_responses t c = Some v))"
proof -
  let ?s' = "s\<lparr>current_ids := (current_ids s)(c \<mapsto> 0)\<rparr>"
  from reachable_ids_ok [OF assms(1)] have ok: "ids_ok ?s'" by (simp add: ids_ok_def)
  have nl: "no_live_request c ?s'" by (simp add: no_live_request_def)
  have slot: "newest_responses ?s' c = newest_responses s c" by simp
  from ok have range: "\<forall>i \<in> set (all_ids ?s'). 1 \<le> i \<and> i \<le> id_max ?s'"
    by (simp add: ids_ok_def)
  then have zero: "0 \<notin> set (all_ids ?s')" by auto
  have later: "\<forall>evs t. run evs ?s' = Some t \<and> (\<forall>ev \<in> set evs. \<not> requests_command c ev)
      \<longrightarrow> current_ids t c = Some 0
        \<and> (newest_responses t c = newest_responses s c \<or> newest_responses t c = Some None)
        \<and> (\<forall>res. res_id res \<in> set (all_ids t) \<and> res_command res = Some c
             \<longrightarrow> parse_response res t
                 = Returns () (t\<lparr>all_ids := remove1 (res_id res) (all_ids t)\<rparr>)
               \<and> res_id res \<notin> set (remove1 (res_id res) (all_ids t)))
        \<and> (\<forall>res u t'. parse_response res t = Returns u t'
             \<longrightarrow> res_id res \<notin> set (all_ids t') \<and> current_ids t' c = Some 0
               \<and> newest_responses t' c = newest_responses t c)
        \<and> (\<forall>v t'. get_response c t = Returns v t' \<longrightarrow> newest_responses t c = Some v)"
  proof (intro allI impI)
    fix evs t
    assume a: "run evs ?s' = Some t \<and> (\<forall>ev \<in> set evs. \<not> requests_command c ev)"
    from run_no_live [OF _ ok nl, of evs t] a slot have
      okt: "ids_ok t" and nlt: "no_live_request c t"
      and st: "newest_responses t c = newest_responses s c \<or> newest_responses t c = Some None"
      by simp_all
    from nlt have cur: "current_ids t c = Some 0" by (simp add: no_live_request_def)
    from okt have dist: "distinct (all_ids t)" and pos: "0 \<notin> set (all_ids t)"
      by (auto simp: ids_ok_def)
    have tagged: "\<forall>res. res_id res \<in> set (all_ids t) \<and> res_command res = Some c
        \<longrightarrow> parse_response res t
            = Returns () (t\<lparr>all_ids := remove1 (res_id res) (all_ids t)\<rparr>)
          \<and> res_id res \<notin> set (remove1 (res_id res) (all_ids t))"
    proof (intro allI impI)
      fix res :: response
      assume r: "res_id res \<in> set (all_ids t) \<and> res_command res = Some c"
      with pos have "0 \<noteq> res_id res" by auto
      with r cur parse_response_superseded [of res t c 0] dist
      show "parse_response res t
            = Returns () (t\<lparr>all_ids := remove1 (res_id res) (all_ids t)\<rparr>)
          \<and> res_id res \<notin> set (remove1 (res_id res) (all_ids t))"
        by simp
    qed
    have any: "\<forall>res u t'. parse_response res t = Returns u t'
        \<longrightarrow> res_id res \<notin> set (all_ids t') \<and> current_ids t' c = Some 0
          \<and> newest_responses t' c = newest_responses t c"
    proof (intro allI impI)
      fix res u t'
      assume p: "parse_response res t = Returns u t'"
      then have fin: "final_state (parse_response res t) = Some t'" by simp
      from parse_response_no_live [OF fin okt nlt] parse_response_Returns [OF p] dist
      show "res_id res \<notin> set (all_ids t') \<and> current_ids t' c = Some 0
          \<and> newest_responses t' c = newest_responses t c"
        by (simp add: no_live_request_def)
    qed
    have got: "\<forall>v t'. get_response c t = Returns v t' \<longrightarrow> newest_responses t c = Some v"
      using get_response_no_live_value [OF _ okt nlt] by blast
    from cur st tagged any got
    show "current_ids t c = Some 0
        \<and> (newest_responses t c = newest_responses s c \<or> newest_responses t c = Some None)
        \<and> (\<forall>res. res_id res \<in> set (all_ids t) \<and> res_command res = Some c
             \<longrightarrow> parse_response res t
                 = Returns () (t\<lparr>all_ids := remove1 (res_id res) (all_ids t)\<rparr>)
               \<and> res_id res \<notin> set (remove1 (res_id res) (all_ids t)))
        \<and> (\<forall>res u t'. parse_response res t = Returns u t'
             \<longrightarrow> res_id res \<notin> set (all_ids t') \<and> current_ids t' c = Some 0
               \<and> newest_responses t' c = newest_responses t c)
        \<and> (\<forall>v t'. get_response c t = Returns v t' \<longrightarrow> newest_responses t c = Some v)"
      by blast
  qed
  have "cancel_request c s = Returns () ?s'" by (rule cancel_request_valid [OF assms(2)])
  moreover have "current_ids ?s' c = Some 0" by simp
  ultimately show ?thesis using zero range later by blast
qed

theorem cancel_drops_late_responses_witness:
  "\<exists>s s' t. run [DoUpdate ''f.py'' ''x'', DoRequest ''highlight'' ''f.py'' [] [] ''Text'' (1, -1)]
        (new_ipc 15000 (\<lambda>n. n)) = Some s
     \<and> reachable s \<and> ''highlight'' \<in> set COMMANDS
     \<and> current_ids s ''highlight'' = Some 2 \<and> all_ids s = [1, 2]
     \<and> cancel_request ''highlight'' s = Returns () s'
     \<and> current_ids s' ''highlight'' = Some 0
     \<and> parse_response \<lparr>res_id = 2, res_command = Some ''highlight'', res_result = ''r''\<rparr> s'
         = Returns () t
     \<and> all_ids t = [1] \<and> newest_responses t ''highlight'' = Some None"
proof -
  let ?init = "new_ipc 15000 (\<lambda>n. n)"
  let ?evs = "[DoUpdate ''f.py'' ''x'', DoRequest ''highlight'' ''f.py'' [] [] ''Text'' (1, -1)]"
  let ?res = "\<lparr>res_id = 2, res_command = Some ''highlight'', res_result = ''r''\<rparr>"
  have "\<exists>s. run ?evs ?init = Some s \<and> current_ids s ''highlight'' = Some 2
      \<and> all_ids s = [1, 2] \<and> newest_responses s ''highlight'' = Some None"
    by (simp add: update_file_def request_def create_message_def new_ipc_def randint_def
        redraw.simps send_message_def COMMANDS_def no_kwargs_def Let_def)
  then obtain s where run: "run ?evs ?init = Some s"
    and cur: "current_ids s ''highlight'' = Some 2" and ids: "all_ids s = [1, 2]"
    and slot: "newest_responses s ''highlight'' = Some None"
    by blast
  from run_reachable [OF run reachable.init [OF IPC_returns]] have reach: "reachable s" .
  have cmd: "''highlight'' \<in> set COMMANDS" by (simp add: COMMANDS_def)
  from cancel_drops_late_responses [OF reach cmd] obtain s' where
    cancel: "cancel_request ''highlight'' s = Returns () s'"
    and zero: "current_ids s' ''highlight'' = Some 0"
    and later: "\<forall>evs t. run evs s' = Some t \<and> (\<forall>ev \<in> set evs. \<not> requests_command ''highlight'' ev)
          \<longrightarrow> (\<forall>res. res_id res \<in> set (all_ids t) \<and> res_command res = Some ''highlight''
                 \<longrightarrow> parse_response res t
                     = Returns () (t\<lparr>all_ids := remove1 (res_id res) (all_ids t)\<rparr>))"
    by blast
  from cancel cmd have s': "s' = s\<lparr>current_ids := (current_ids s)(''highlight'' \<mapsto> 0)\<rparr>"
    by (simp add: cancel_request_def)
  have "run [] s' = Some s' \<and> (\<forall>ev \<in> set []. \<not> requests_command ''highlight'' ev)" by simp
  from later [rule_format, OF this, of ?res]
  have parse: "parse_response ?res s'
      = Returns () (s'\<lparr>all_ids := remove1 (res_id ?res) (all_ids s')\<rparr>)"
    by (simp add: s' ids)
  let ?t = "s'\<lparr>all_ids := remove1 (res_id ?res) (all_ids s')\<rparr>"
  have "all_ids ?t = [1]" "newest_responses ?t ''highlight'' = Some None"
    by (simp_all add: s' ids slot)
  with run reach cmd cur ids cancel zero parse show ?thesis by blast
qed

section \<open>Taking a response\<close>

lemma get_response_stale:
  assumes "c \<in> set COMMANDS" "res_id res \<in> set (all_ids s)" "res_command res = Some c"
    and "current_ids s c = Some cur" "cur \<noteq> res_id res" "newest_responses s c = Some old"
  shows "get_response c (s\<lparr>response_queue := [res]\<rparr>)
     = Returns old (s\<lparr>response_queue := [], all_ids := remove1 (res_id res) (all_ids s),
          newest_responses := (newest_responses s)(c \<mapsto> None)\<rparr>)"
  using assms
  by (auto simp: get_response_def check_responses_def parse_response_def)

lemma get_response_live:
  assumes "c \<in> set COMMANDS" "res_id res \<in> set (all_ids s)" "res_command res = Some c"
    and "current_ids s c = Some (res_id res)"
  shows "get_response c (s\<lparr>response_queue := [res]\<rparr>)
     = Returns (Some res) (s\<lparr>response_queue := [], all_ids := remove1 (res_id res) (all_ids s),
          current_ids := (current_ids s)(c \<mapsto> 0),
          newest_responses := (newest_responses s)(c \<mapsto> None)\<rparr>)"
  using assms
  by (auto simp: get_response_def check_responses_def parse_response_def)

lemma get_response_empty_queue:
  assumes "c \<in> set COMMANDS" "response_queue s = []" "newest_responses s c = Some old"
  shows "get_response c s
     = Returns old (s\<lparr>newest_responses := (newest_responses s)(c \<mapsto> None)\<rparr>)"
  using assms
  by (auto simp: get_response_def check_responses_def)

text \<open>
  C2: when \<open>get_response\<close> returns, the command is valid, the value returned is what
  the command's slot held after the drain, and the slot is empty afterwards. In a state
  that a history of the object reaches and in which the command's slot is empty, let two
  requests for the same command return one after the other, with the identifiers \<open>i1\<close>
  and \<open>i2\<close>. The identifiers differ; with a response bearing \<open>i1\<close> on the inbound
  queue \<open>get_response\<close> returns none; with a response bearing \<open>i2\<close> on the queue the
  next \<open>get_response\<close> returns that response; the next one returns none; and so does
  every \<open>get_response\<close> for the command that returns, after any history in which no
  new request for the command is made.
\<close>

theorem superseded_response_not_returned:
  assumes "reachable s" "newest_responses s c = Some None"
    and "request c f ks w l r s = Returns () s1"
    and "request c f' ks' w' l' r' s1 = Returns () s2"
    and "current_ids s1 c = Some i1" "current_ids s2 c = Some i2"
    and "res_id res1 = i1" "res_command res1 = Some c"
    and "res_id res2 = i2" "res_command res2 = Some c"
  shows "(\<forall>c0 v s'. get_response c0 s = Returns v s'
          \<longrightarrow> c0 \<in> set COMMANDS \<and> newest_responses s' c0 = Some None
            \<and> (\<exists>t. check_responses s = Returns () t \<and> newest_responses t c0 = Some v))
     \<and> i1 \<noteq> i2
     \<and> (\<exists>s3 s4 s5.
          get_response c (s2\<lparr>response_queue := [res1]\<rparr>) = Returns None s3
        \<and> get_response c (s3\<lparr>response_queue := [res2]\<rparr>) = Returns (Some res2) s4
        \<and> get_response c s4 = Returns None s5
        \<and> (\<forall>evs t v t'. run evs s4 = Some t \<and> (\<forall>ev \<in> set evs. \<not> requests_command c ev)
               \<and> get_response c t = Returns v t' \<longrightarrow> v = None))"
proof -
  have general: "\<forall>c0 v s'. get_response c0 s = Returns v s'
      \<longrightarrow> c0 \<in> set COMMANDS \<and> newest_responses s' c0 = Some None
        \<and> (\<exists>t. check_responses s = Returns () t \<and> newest_responses t c0 = Some v)"
    using get_response_Returns by blast
  from request_Returns [OF assms(3)] have cmd: "c \<in> set COMMANDS" by simp
  from request_sends [OF assms(3)] assms(5) have
    one: "i1 \<notin> set (all_ids s)" "all_ids s1 = all_ids s @ [i1]"
    by auto
  from request_sends [OF assms(4)] assms(6) have
    two: "i2 \<notin> set (all_ids s1)" "all_ids s2 = all_ids s1 @ [i2]"
    by auto
  from one two have ne: "i1 \<noteq> i2" by auto
  from request_frame [OF assms(3)] request_frame [OF assms(4)] assms(2)
  have slot2: "newest_responses s2 c = Some None" by simp
  from assms(3) have p1: "perform (DoRequest c f ks w l r) s = Some s1" by simp
  from assms(4) have p2: "perform (DoRequest c f' ks' w' l' r') s1 = Some s2" by simp
  from perform_ids_ok [OF p2 perform_ids_ok [OF p1 reachable_ids_ok [OF assms(1)]]]
  have ok2: "ids_ok s2" .
  let ?s3 = "s2\<lparr>response_queue := [], all_ids := remove1 (res_id res1) (all_ids s2),
      newest_responses := (newest_responses s2)(c \<mapsto> None)\<rparr>"
  let ?s4 = "?s3\<lparr>response_queue := [], all_ids := remove1 (res_id res2) (all_ids ?s3),
      current_ids := (current_ids ?s3)(c \<mapsto> 0),
      newest_responses := (newest_responses ?s3)(c \<mapsto> None)\<rparr>"
  let ?s5 = "?s4\<lparr>newest_responses := (newest_responses ?s4)(c \<mapsto> None)\<rparr>"
  have in1: "res_id res1 \<in> set (all_ids s2)" using one two assms(7) by simp
  have g1: "get_response c (s2\<lparr>response_queue := [res1]\<rparr>) = Returns None ?s3"
    using get_response_stale [OF cmd in1 assms(8) assms(6) _ slot2] ne assms(7) by simp
  have in2: "res_id res2 \<in> set (all_ids ?s3)" using two assms(7,9) ne by simp
  have cur3: "current_ids ?s3 c = Some (res_id res2)" using assms(6,9) by simp
  have g2: "get_response c (?s3\<lparr>response_queue := [res2]\<rparr>) = Returns (Some res2) ?s4"
    by (rule get_response_live [OF cmd in2 assms(10) cur3])
  have g3: "get_response c ?s4 = Returns None ?s5"
    by (rule get_response_empty_queue [OF cmd]) simp_all
  have "ids_ok (s2\<lparr>response_queue := [res1]\<rparr>)" using ok2 by (simp add: ids_ok_def)
  from get_response_ids_ok [OF _ this, of c ?s3] g1 have "ids_ok ?s3" by simp
  then have "ids_ok (?s3\<lparr>response_queue := [res2]\<rparr>)" by (simp add: ids_ok_def)
  from get_response_ids_ok [OF _ this, of c ?s4] g2 have ok4: "ids_ok ?s4" by simp
  have nl4: "no_live_request c ?s4" by (simp add: no_live_request_def)
  have later: "\<forall>evs t v t'. run evs ?s4 = Some t \<and> (\<forall>ev \<in> set evs. \<not> requests_command c ev)
      \<and> get_response c t = Returns v t' \<longrightarrow> v = None"
  proof (intro allI impI)
    fix evs t v t'
    assume a: "run evs ?s4 = Some t \<and> (\<forall>ev \<in> set evs. \<not> requests_command c ev)
      \<and> get_response c t = Returns v t'"
    from run_no_live [OF _ ok4 nl4, of evs t] a have
      okt: "ids_ok t" and nlt: "no_live_request c t"
      and st: "newest_responses t c = Some None"
      by auto
    from get_response_no_live_value [OF _ okt nlt, of v t'] a st show "v = None" by simp
  qed
  from g1 g2 g3 later have
    "\<exists>s3 s4 s5.
          get_response c (s2\<lparr>response_queue := [res1]\<rparr>) = Returns None s3
        \<and> get_response c (s3\<lparr>response_queue := [res2]\<rparr>) = Returns (Some res2) s4
        \<and> get_response c s4 = Returns None s5
        \<and> (\<forall>evs t v t'. run evs s4 = Some t \<and> (\<forall>ev \<in> set evs. \<not> requests_command c ev)
               \<and> get_response c t = Returns v t' \<longrightarrow> v = None)"
    by blast
  with general ne show ?thesis by blast
qed

theorem superseded_response_not_returned_witness:
  "\<exists>s s1 s2 s3 s4 s5.
      run [DoUpdate ''f.py'' ''x''] (new_ipc 15000 (\<lambda>n. n)) = Some s
    \<and> reachable s \<and> newest_responses s ''autocomplete'' = Some None
    \<and> request ''autocomplete'' ''f.py'' [] [] ''Text'' (1, -1) s = Returns () s1
    \<and> request ''autocomplete'' ''f.py'' [] [] ''Text'' (1, -1) s1 = Returns () s2
    \<and> current_ids s1 ''autocomplete'' = Some 2 \<and> current_ids s2 ''autocomplete'' = Some 3
    \<and> get_response ''autocomplete''
          (s2\<lparr>response_queue := [\<lparr>res_id = 2, res_command = Some ''autocomplete'',
                                   res_result = ''old''\<rparr>]\<rparr>) = Returns None s3
    \<and> get_response ''autocomplete''
          (s3\<lparr>response_queue := [\<lparr>res_id = 3, res_command = Some ''autocomplete'',
                                   res_result = ''new''\<rparr>]\<rparr>)
        = Returns (Some \<lparr>res_id = 3, res_command = Some ''autocomplete'',
                          res_result = ''new''\<rparr>) s4
    \<and> get_response ''autocomplete'' s4 = Returns None s5"
proof -
  let ?init = "new_ipc 15000 (\<lambda>n. n)"
  let ?old = "\<lparr>res_id = 2, res_command = Some ''autocomplete'', res_result = ''old''\<rparr>"
  let ?new = "\<lparr>res_id = 3, res_command = Some ''autocomplete'', res_result = ''new''\<rparr>"
  have "\<exists>s. run [DoUpdate ''f.py'' ''x''] ?init = Some s
      \<and> newest_responses s ''autocomplete'' = Some None \<and> all_ids s = [1]
      \<and> id_max s = 15000 \<and> entropy s = (\<lambda>n. Suc n) \<and> files s = [(''f.py'', ''x'')]
      \<and> current_ids s = current_ids ?init"
    by (simp add: update_file_def create_message_def new_ipc_def randint_def
        redraw.simps send_message_def COMMANDS_def no_kwargs_def Let_def)
  then obtain s where run: "run [DoUpdate ''f.py'' ''x''] ?init = Some s"
    and slot: "newest_responses s ''autocomplete'' = Some None" and ids: "all_ids s = [1]"
    and hi: "id_max s = 15000" and e: "entropy s = (\<lambda>n. Suc n)"
    and fs: "files s = [(''f.py'', ''x'')]" and cur: "current_ids s = current_ids ?init"
    by blast
  from run_reachable [OF run reachable.init [OF IPC_returns]] have reach: "reachable s" .
  have "\<exists>s1. request ''autocomplete'' ''f.py'' [] [] ''Text'' (1, -1) s = Returns () s1
      \<and> current_ids s1 ''autocomplete'' = Some 2 \<and> all_ids s1 = [1, 2]
      \<and> id_max s1 = 15000 \<and> entropy s1 = (\<lambda>n. Suc (Suc n)) \<and> files s1 = [(''f.py'', ''x'')]"
    by (simp add: request_def create_message_def randint_def redraw.simps send_message_def
        COMMANDS_def no_kwargs_def Let_def ids hi e fs)
  then obtain s1 where
    r1: "request ''autocomplete'' ''f.py'' [] [] ''Text'' (1, -1) s = Returns () s1"
    and cur1: "current_ids s1 ''autocomplete'' = Some 2" and ids1: "all_ids s1 = [1, 2]"
    and hi1: "id_max s1 = 15000" and e1: "entropy s1 = (\<lambda>n. Suc (Suc n))"
    and fs1: "files s1 = [(''f.py'', ''x'')]"
    by blast
  have "\<exists>s2. request ''autocomplete'' ''f.py'' [] [] ''Text'' (1, -1) s1 = Returns () s2
      \<and> current_ids s2 ''autocomplete'' = Some 3"
    by (simp add: request_def create_message_def randint_def redraw.simps send_message_def
        COMMANDS_def no_kwargs_def Let_def ids1 hi1 e1 fs1)
  then obtain s2 where
    r2: "request ''autocomplete'' ''f.py'' [] [] ''Text'' (1, -1) s1 = Returns () s2"
    and cur2: "current_ids s2 ''autocomplete'' = Some 3"
    by blast
  have tags: "res_id ?old = 2" "res_command ?old = Some ''autocomplete''"
    "res_id ?new = 3" "res_command ?new = Some ''autocomplete''"
    by simp_all
  from superseded_response_not_returned
    [OF reach slot r1 r2 cur1 cur2 tags(1) tags(2) tags(3) tags(4)]
  obtain s3 s4 s5 where
    "get_response ''autocomplete'' (s2\<lparr>response_queue := [?old]\<rparr>) = Returns None s3"
    "get_response ''autocomplete'' (s3\<lparr>response_queue := [?new]\<rparr>) = Returns (Some ?new) s4"
    "get_response ''autocomplete'' s4 = Returns None s5"
    by blast
  with run reach slot r1 r2 cur1 cur2 show ?thesis by blast
qed

section \<open>The file mirror and the worker process\<close>

lemma remove_file_frame:
  assumes "final_state (remove_file f s) = Some s'"
  shows "files s' = files s \<and> servers_started s' = servers_started s
     \<and> (server_alive s' \<longrightarrow> server_alive s)"
proof (cases "f \<in> set (map fst (files s))")
  case True
  let ?kw = "no_kwargs\<lparr>kw_remove := Some True, kw_filename := Some f\<rparr>"
  from True assms have "final_state (create_message ''notification'' ?kw s) = Some s'"
    by (simp add: remove_file_def)
  from create_message_frame [OF this] show ?thesis by simp
next
  case False
  with assms show ?thesis by (auto simp: remove_file_def killed_def)
qed

lemma drain_frame:
  "final_state (drain q s) = Some s' \<Longrightarrow>
   files s' = files s \<and> servers_started s' = servers_started s
     \<and> server_alive s' = server_alive s \<and> requests_queue s' = requests_queue s"
proof (induction q arbitrary: s)
  case Nil
  then show ?case by auto
next
  case (Cons res q)
  let ?t = "s\<lparr>response_queue := q\<rparr>"
  show ?case
  proof (cases "parse_response res ?t")
    case (Returns u t)
    then have fin: "final_state (parse_response res ?t) = Some t" by simp
    from parse_response_final [OF fin] have
      "files t = files s \<and> servers_started t = servers_started s
        \<and> server_alive t = server_alive s \<and> requests_queue t = requests_queue s"
      by auto
    with Cons.IH [of t] Cons.prems Returns show ?thesis by auto
  next
    case (Raises err t)
    then have fin: "final_state (parse_response res ?t) = Some t" by simp
    from parse_response_final [OF fin] Cons.prems Raises show ?thesis by auto
  next
    case Diverges
    with Cons.prems show ?thesis by simp
  qed
qed

text \<open>
  No method of the public interface starts a worker process: only \<open>check_server\<close> does,
  and none of them calls it.
\<close>

lemma perform_never_respawns:
  assumes "perform ev s = Some s'" "ev \<noteq> DoCheckServer"
  shows "servers_started s' = servers_started s \<and> (server_alive s' \<longrightarrow> server_alive s)"
proof (cases ev)
  case DoPing
  with assms have "final_state (create_message ''ping'' no_kwargs s) = Some s'"
    by (simp add: ping_def)
  from create_message_frame [OF this] show ?thesis by simp
next
  case (DoRequest c f ks w l r)
  show ?thesis
  proof (cases "c \<in> set COMMANDS \<and> f \<in> set (map fst (files s))")
    case True
    let ?kw = "no_kwargs\<lparr>kw_command := Some c, kw_file := Some f,
        kw_expected_keywords := Some ks, kw_current_word := Some w, kw_language := Some l,
        kw_text_range := Some r\<rparr>"
    from True assms(1) DoRequest have "final_state (create_message ''request'' ?kw s) = Some s'"
      by (simp add: request_def)
    from create_message_frame [OF this] show ?thesis by simp
  next
    case False
    with assms DoRequest show ?thesis by (auto simp: request_def killed_def split: if_splits)
  qed
next
  case (DoCancel c)
  with assms show ?thesis by (auto simp: cancel_request_def killed_def split: if_splits)
next
  case (DoGet c)
  show ?thesis
  proof (cases "c \<in> set COMMANDS")
    case False
    with assms DoGet show ?thesis by (auto simp: get_response_def killed_def)
  next
    case True
    with assms(1) DoGet have "final_state (get_response c s) = Some s'" by simp
    from get_response_final [OF this True] obtain t where
      d: "final_state (drain (response_queue s) s) = Some t"
      and s': "s' = t \<or> s' = t\<lparr>newest_responses := (newest_responses t)(c \<mapsto> None)\<rparr>"
      by blast
    from drain_frame [OF d] s' show ?thesis by auto
  qed
next
  case (DoUpdate f d)
  with assms have "final_state (update_file f d s) = Some s'" by simp
  from update_file_frame [OF this] show ?thesis by simp
next
  case (DoRemove f)
  with assms have "final_state (remove_file f s) = Some s'" by simp
  from remove_file_frame [OF this] show ?thesis by simp
next
  case DoKill
  with assms show ?thesis by (auto simp: kill_IPC_def killed_def)
next
  case DoCheckServer
  with assms show ?thesis by simp
next
  case (WorkerPuts res)
  with assms show ?thesis by auto
next
  case WorkerExits
  with assms show ?thesis by (auto simp: killed_def)
qed

text \<open>
  C3, evaluated: after \<open>update_file\<close> for \<open>a.txt\<close> and \<open>b.txt\<close> and \<open>remove_file\<close> for
  \<open>a.txt\<close>, which sends the removal, \<open>a.txt\<close> is still a key of \<open>files\<close>; when the
  worker has exited and \<open>check_server\<close> starts a new one, the replay sends \<open>a.txt\<close> again.
\<close>

theorem remove_file_keeps_mirror_entry:
  "\<exists>s s'. run [DoUpdate ''a.txt'' ''1'', DoUpdate ''b.txt'' ''2'', DoRemove ''a.txt'']
        (new_ipc 15000 (\<lambda>n. n)) = Some s
     \<and> files s = [(''a.txt'', ''1''), (''b.txt'', ''2'')]
     \<and> requests_queue s = [Notification 1 False ''a.txt'' ''1'',
          Notification 2 False ''b.txt'' ''2'', Notification 3 True ''a.txt'' []]
     \<and> run [WorkerExits, DoCheckServer] s = Some s'
     \<and> requests_queue s' = [Notification 1 False ''a.txt'' ''1'',
          Notification 2 False ''b.txt'' ''2'', Notification 3 True ''a.txt'' [],
          Notification 4 False ''a.txt'' ''1'', Notification 5 False ''b.txt'' ''2'']"
  by (simp add: update_file_def remove_file_def check_server_def create_server_def
      create_message_def new_ipc_def randint_def redraw.simps send_message_def killed_def
      no_kwargs_def Let_def)

text \<open>
  C4, evaluated: with \<open>a.txt\<close> in the mirror and the worker exited, \<open>request\<close>,
  \<open>cancel_request\<close>, \<open>get_response\<close> and \<open>remove_file\<close> each return with the worker
  still not alive, no process started and no replay sent; \<open>check_server\<close>, which none of
  them calls, is what starts a process and replays the mirror.
\<close>

theorem dead_worker_is_not_respawned:
  "\<exists>s. run [DoUpdate ''a.txt'' ''1'', WorkerExits] (new_ipc 15000 (\<lambda>n. n)) = Some s
     \<and> \<not> server_alive s \<and> servers_started s = 1
     \<and> requests_queue s = [Notification 1 False ''a.txt'' ''1'']
     \<and> (\<exists>s'. request ''highlight'' ''a.txt'' [] [] ''Text'' (1, -1) s = Returns () s'
          \<and> \<not> server_alive s' \<and> servers_started s' = 1
          \<and> requests_queue s' = [Notification 1 False ''a.txt'' ''1'',
               Request 2 ''highlight'' ''a.txt'' [] [] ''Text'' (1, -1)])
     \<and> (\<exists>s'. cancel_request ''highlight'' s = Returns () s'
          \<and> \<not> server_alive s' \<and> servers_started s' = 1
          \<and> requests_queue s' = [Notification 1 False ''a.txt'' ''1''])
     \<and> (\<exists>s'. get_response ''highlight'' s = Returns None s'
          \<and> \<not> server_alive s' \<and> servers_started s' = 1
          \<and> requests_queue s' = [Notification 1 False ''a.txt'' ''1''])
     \<and> (\<exists>s'. remove_file ''a.txt'' s = Returns () s'
          \<and> \<not> server_alive s' \<and> servers_started s' = 1
          \<and> requests_queue s' = [Notification 1 False ''a.txt'' ''1'',
               Notification 2 True ''a.txt'' []])
     \<and> (\<exists>s'. check_server s = Returns () s'
          \<and> server_alive s' \<and> servers_started s' = 2
          \<and> requests_queue s' = [Notification 1 False ''a.txt'' ''1'',
               Notification 2 False ''a.txt'' ''1''])"
  by (simp add: update_file_def remove_file_def request_def cancel_request_def
      get_response_def check_responses_def check_server_def create_server_def
      create_message_def new_ipc_def randint_def redraw.simps send_message_def killed_def
      no_kwargs_def COMMANDS_def Let_def)

end
